theory Spec2Isabelle
  imports Main "HOL-Library.Word" "HOL-Library.Signed_Division"
begin

section \<open>Rate and saturation limiters of sweetiebot (package sweetiebot, limiters)\<close>

text \<open>
  The Go source works on two integer types: \<open>int64\<close> for timestamps and periods, and
  \<open>int\<close> for the cursor, for \<open>num\<close> and for sizes. Both are modelled as 64-bit
  two's-complement words (\<open>int\<close> is 64 bits wide on the 64-bit targets of the Go
  toolchain), so that \<open>+\<close> and \<open>-\<close> wrap around as they do in Go, and comparisons
  are the signed ones (\<open>\<le>s\<close>, \<open><s\<close>).

  A run-time panic of Go is a value of type \<open>panic\<close>; every operation that can panic
  returns \<open>panic + 'a\<close>, with \<open>Inl\<close> for the panic.
\<close>

type_synonym int64 = "64 word"
type_synonym go_int = "64 word"

datatype panic = DivideByZero | IndexOutOfRange | MakeSliceLenOutOfRange

subsection \<open>Go primitives\<close>

text \<open>The builtin \<open>len\<close> of a slice, as a Go \<open>int\<close>.\<close>

definition len :: "'a list \<Rightarrow> go_int" where
  "len xs = word_of_nat (length xs)"

text \<open>
  Go's \<open>%\<close> on \<open>int\<close> for a non-zero divisor: the remainder of the division that
  truncates towards zero, so the result has the sign of the dividend.
\<close>

definition go_rem :: "go_int \<Rightarrow> go_int \<Rightarrow> go_int" where
  "go_rem x m = word_of_int (sint x smod sint m)"

text \<open>The slice read \<open>xs[i]\<close>: a panic unless \<open>0 \<le> i < len(xs)\<close>.\<close>

definition slice_get :: "'a list \<Rightarrow> go_int \<Rightarrow> panic + 'a" where
  "slice_get xs i =
     (if 0 \<le>s i \<and> i <s len xs then Inr (xs ! nat (sint i)) else Inl IndexOutOfRange)"

text \<open>The slice write \<open>xs[i] = v\<close>: a panic unless \<open>0 \<le> i < len(xs)\<close>.\<close>

definition slice_set :: "'a list \<Rightarrow> go_int \<Rightarrow> 'a \<Rightarrow> panic + 'a list" where
  "slice_set xs i v =
     (if 0 \<le>s i \<and> i <s len xs then Inr (xs[nat (sint i) := v]) else Inl IndexOutOfRange)"

subsection \<open>SaturationLimit\<close>

text \<open>
  \<^verbatim>\<open>
  type SaturationLimit struct {
      times []int64
      index int
      lock  sync.Mutex
  }
  \<close>
  Every method takes the lock on entry and releases it on return, so each method is one
  atomic transition of the state \<open>(times, index)\<close>; the lock itself carries no data.
  The field \<open>times\<close> is named \<open>times_sl\<close> here.
\<close>

record SaturationLimit =
  times_sl :: "int64 list"
  index :: go_int

text \<open>
  \<^verbatim>\<open>
  func realmod(x int, m int) int {
      x %= m
      if x < 0 { x += m }
      return x
  }
  \<close>
\<close>

definition realmod :: "go_int \<Rightarrow> go_int \<Rightarrow> panic + go_int" where
  "realmod x m =
     (if m = 0 then Inl DivideByZero
      else (let x1 = go_rem x m in Inr (if x1 <s 0 then x1 + m else x1)))"

text \<open>
  \<^verbatim>\<open>
  func (s *SaturationLimit) append(t int64) {
      s.index = realmod(s.index+1, len(s.times))
      s.times[s.index] = t
  }
  \<close>
\<close>

definition append_sl :: "SaturationLimit \<Rightarrow> int64 \<Rightarrow> panic + SaturationLimit" where
  "append_sl s t =
     (case realmod (index s + 1) (len (times_sl s)) of
        Inl e \<Rightarrow> Inl e
      | Inr i \<Rightarrow>
          (case slice_set (times_sl s) i t of
             Inl e \<Rightarrow> Inl e
           | Inr ts \<Rightarrow> Inr (s\<lparr>index := i, times_sl := ts\<rparr>)))"

text \<open>
  \<^verbatim>\<open>
  func (s *SaturationLimit) check(num int, period int64, curtime int64) bool {
      i := realmod(s.index-(num-1), len(s.times))
      return (curtime - s.times[i]) <= period
  }
  \<close>
\<close>

definition check :: "SaturationLimit \<Rightarrow> go_int \<Rightarrow> int64 \<Rightarrow> int64 \<Rightarrow> panic + bool" where
  "check s num period curtime =
     (case realmod (index s - (num - 1)) (len (times_sl s)) of
        Inl e \<Rightarrow> Inl e
      | Inr i \<Rightarrow>
          (case slice_get (times_sl s) i of
             Inl e \<Rightarrow> Inl e
           | Inr v \<Rightarrow> Inr (curtime - v \<le>s period)))"

text \<open>
  \<^verbatim>\<open>
  func (s *SaturationLimit) checkafter(num int, period int64) bool {
      i := realmod(s.index-num, len(s.times))
      return (s.times[s.index] - s.times[i]) <= period
  }
  \<close>
\<close>

definition checkafter :: "SaturationLimit \<Rightarrow> go_int \<Rightarrow> int64 \<Rightarrow> panic + bool" where
  "checkafter s num period =
     (case realmod (index s - num) (len (times_sl s)) of
        Inl e \<Rightarrow> Inl e
      | Inr i \<Rightarrow>
          (case slice_get (times_sl s) (index s) of
             Inl e \<Rightarrow> Inl e
           | Inr a \<Rightarrow>
               (case slice_get (times_sl s) i of
                  Inl e \<Rightarrow> Inl e
                | Inr b \<Rightarrow> Inr (a - b \<le>s period))))"

text \<open>
  \<^verbatim>\<open>
  func (s *SaturationLimit) resize(size int) {
      n := make([]int64, size, size)
      copy(n, s.times)
      s.times = n
  }
  \<close>
  \<open>make\<close> panics with \<^verbatim>\<open>makeslice: len out of range\<close> on a negative length
  and on a length whose size in bytes, 8 for each \<open>int64\<close>, exceeds the runtime's
  \<open>maxAlloc\<close>; \<open>copy\<close> copies the first \<open>min(len(n), len(s.times))\<close> elements and
  leaves the rest of \<open>n\<close> zero. \<open>maxAlloc\<close> is \<open>2^48\<close> on the 64-bit targets with
  48-bit heap addresses. (Below that limit the process may still run out of memory,
  which ends the process and is no panic; that is outside the model.)
\<close>

definition maxAlloc :: int where
  "maxAlloc = 281474976710656"

definition resize :: "SaturationLimit \<Rightarrow> go_int \<Rightarrow> panic + SaturationLimit" where
  "resize s sz =
     (if sz <s 0 \<or> maxAlloc < 8 * sint sz then Inl MakeSliceLenOutOfRange
      else (let n = nat (sint sz)
            in Inr (s\<lparr>times_sl := take n (times_sl s) @ replicate (n - length (times_sl s)) 0\<rparr>)))"

text \<open>
  The source has no constructor; an instance is made by a struct literal that gives the
  backing slice and leaves the cursor at its zero value, as in the benchmark of the
  repository's optimisation notes:
  \<^verbatim>\<open>s := &SaturationLimit{ times: make([]int64, 100) }\<close>
\<close>

definition new_limit :: "nat \<Rightarrow> SaturationLimit" where
  "new_limit c = \<lparr>times_sl = replicate c 0, index = 0\<rparr>"

text \<open>A sequence of \<open>append\<close> calls, stopping at the first panic.\<close>

fun appends :: "SaturationLimit \<Rightarrow> int64 list \<Rightarrow> panic + SaturationLimit" where
  "appends s [] = Inr s"
| "appends s (t # ts) = (case append_sl s t of Inl e \<Rightarrow> Inl e | Inr s' \<Rightarrow> appends s' ts)"

text \<open>
  The data invariant of the spec: the cursor is a valid position of the backing slice.
  The bound on the length is Go's own: the length of a slice is an \<open>int\<close>.
\<close>

definition sl_inv :: "SaturationLimit \<Rightarrow> bool" where
  "sl_inv s \<longleftrightarrow>
     length (times_sl s) < 2 ^ 63 \<and> 0 \<le>s index s \<and> index s <s len (times_sl s)"

subsection \<open>RateLimit and CheckRateLimit\<close>

text \<open>
  The rate-limit cell is one shared \<open>int64\<close>, read and written only through
  \<open>sync/atomic\<close>. \<open>atomic.LoadInt64\<close> returns the cell's value;
  \<open>atomic.CompareAndSwapInt64(p, old, new)\<close> stores \<open>new\<close> and reports true if
  the cell holds \<open>old\<close>, and reports false, changing nothing, otherwise. Both are
  functions of the cell's value, returning the new value of the cell with their result.
\<close>

definition LoadInt64 :: "int64 \<Rightarrow> int64 \<times> int64" where
  "LoadInt64 cell = (cell, cell)"

definition CompareAndSwapInt64 :: "int64 \<Rightarrow> int64 \<Rightarrow> int64 \<Rightarrow> bool \<times> int64" where
  "CompareAndSwapInt64 cell old new = (if cell = old then (True, new) else (False, cell))"

text \<open>
  \<^verbatim>\<open>
  func CheckRateLimit(prevtime *int64, interval int64) bool {
      return time.Now().UTC().Unix()-atomic.LoadInt64(prevtime) > interval
  }
  \<close>
  The reading of the clock, \<open>time.Now().UTC().Unix()\<close>, is the parameter \<open>now\<close>.
  The result is paired with the value of the cell after the call.
\<close>

definition CheckRateLimit :: "int64 \<Rightarrow> int64 \<Rightarrow> int64 \<Rightarrow> bool \<times> int64" where
  "CheckRateLimit now cell interval =
     (let (d, cell') = LoadInt64 cell in (interval <s now - d, cell'))"

text \<open>
  \<^verbatim>\<open>
  func RateLimit(prevtime *int64, interval int64) bool {
      t := time.Now().UTC().Unix()
      for {
          d := atomic.LoadInt64(prevtime)
          if t-d <= interval { return false }
          if atomic.CompareAndSwapInt64(prevtime, d, t) { return true }
      }
  }
  \<close>
  \<open>RateLimit_loop\<close> is the loop run by one goroutine with no other goroutine writing
  the cell meanwhile. The loop has no bound in the source, so it is a partial function:
  \<open>None\<close> is the loop that never returns. \<open>RateLimit\<close> reads the clock once
  (the parameter \<open>now\<close>) and enters the loop.
\<close>

partial_function (option) RateLimit_loop :: "int64 \<Rightarrow> int64 \<Rightarrow> int64 \<Rightarrow> (bool \<times> int64) option" where
  "RateLimit_loop t interval cell =
     (let (d, cell1) = LoadInt64 cell in
      if t - d \<le>s interval then Some (False, cell1)
      else (let (ok, cell2) = CompareAndSwapInt64 cell1 d t in
            if ok then Some (True, cell2) else RateLimit_loop t interval cell2))"

declare RateLimit_loop.simps [code]

definition RateLimit :: "int64 \<Rightarrow> int64 \<Rightarrow> int64 \<Rightarrow> (bool \<times> int64) option" where
  "RateLimit now cell interval = RateLimit_loop now interval cell"

text \<open>
  A run of \<open>RateLimit\<close> calls on one cell, one after the other, the call number \<open>i\<close>
  reading the clock as \<open>ts ! i\<close>: the results in order, and the cell at the end.
\<close>

fun RateLimit_seq :: "int64 \<Rightarrow> int64 \<Rightarrow> int64 list \<Rightarrow> (bool list \<times> int64) option" where
  "RateLimit_seq cell interval [] = Some ([], cell)"
| "RateLimit_seq cell interval (t # ts) =
     (case RateLimit t cell interval of
        None \<Rightarrow> None
      | Some (b, cell1) \<Rightarrow>
          (case RateLimit_seq cell1 interval ts of
             None \<Rightarrow> None
           | Some (bs, cell2) \<Rightarrow> Some (b # bs, cell2)))"

subsection \<open>Concurrent calls of RateLimit\<close>

text \<open>
  Several goroutines call \<open>RateLimit\<close> on one cell. A call touches the cell only in
  \<open>atomic.LoadInt64\<close> and \<open>atomic.CompareAndSwapInt64\<close>, and Go's atomic
  operations behave as if executed in one sequentially consistent order, so a run of
  the calls is an interleaving of these operations. Between two of them a call works on
  its own variables \<open>t\<close> and \<open>d\<close> only; the test \<open>t-d <= interval\<close> is therefore
  taken together with the load before it.

  A call is at one of three points: about to load (\<open>AtLoad\<close>, the top of the loop),
  about to compare-and-swap with the value \<open>d\<close> it loaded (\<open>AtCAS d\<close>), or it has
  returned a result.
\<close>

datatype call = AtLoad | AtCAS int64 | Returned bool

text \<open>
  One atomic operation of a call that read the clock as \<open>t\<close>, on the cell: the call's
  next point and the cell afterwards. A call that has returned does nothing.
\<close>

definition call_step :: "int64 \<Rightarrow> int64 \<Rightarrow> call \<Rightarrow> int64 \<Rightarrow> call \<times> int64" where
  "call_step interval t pc cell =
     (case pc of
        AtLoad \<Rightarrow>
          (let (d, cell1) = LoadInt64 cell in
           if t - d \<le>s interval then (Returned False, cell1) else (AtCAS d, cell1))
      | AtCAS d \<Rightarrow>
          (let (ok, cell1) = CompareAndSwapInt64 cell d t in
           if ok then (Returned True, cell1) else (AtLoad, cell1))
      | Returned b \<Rightarrow> (Returned b, cell))"

text \<open>
  A configuration is the cell together with the calls in flight, each with its reading of
  the clock and the point it is at. \<open>sched_step interval k\<close> lets call number \<open>k\<close>
  do its next atomic operation; \<open>exec\<close> runs a schedule, the list of the numbers of
  the calls in the order in which they take their steps.
\<close>

type_synonym config = "int64 \<times> (int64 \<times> call) list"

definition sched_step :: "int64 \<Rightarrow> nat \<Rightarrow> config \<Rightarrow> config" where
  "sched_step interval k c =
     (case c of (cell, cs) \<Rightarrow>
        if k < length cs then
          (case cs ! k of (t, pc) \<Rightarrow>
             (case call_step interval t pc cell of (pc', cell') \<Rightarrow> (cell', cs[k := (t, pc')])))
        else c)"

fun exec :: "int64 \<Rightarrow> nat list \<Rightarrow> config \<Rightarrow> config" where
  "exec interval [] c = c"
| "exec interval (k # ks) c = exec interval ks (sched_step interval k c)"

text \<open>All calls have read the clock and are about to enter the loop.\<close>

definition start :: "int64 \<Rightarrow> int64 list \<Rightarrow> config" where
  "start cell ts = (cell, map (\<lambda>t. (t, AtLoad)) ts)"

definition returned :: "config \<Rightarrow> nat \<Rightarrow> bool" where
  "returned c k \<longleftrightarrow>
     k < length (snd c) \<and> (case snd (snd c ! k) of Returned b \<Rightarrow> True | _ \<Rightarrow> False)"

text \<open>The calls in the order in which they return during a schedule.\<close>

fun completions :: "int64 \<Rightarrow> nat list \<Rightarrow> config \<Rightarrow> nat list" where
  "completions interval [] c = []"
| "completions interval (k # ks) c =
     (if returned (sched_step interval k c) k \<and> \<not> returned c k then [k] else [])
       @ completions interval ks (sched_step interval k c)"

text \<open>
  The cell is fresh for the callers when \<open>CheckRateLimit\<close> tells each of them that a
  call would succeed. The callers are within one disallowed window when each caller's
  reading of the clock lies in the window that a success of any of them opens: with the
  cell set to the reading of one, \<open>CheckRateLimit\<close> tells every other that a call
  would fail.
\<close>

definition fresh :: "int64 \<Rightarrow> int64 \<Rightarrow> int64 list \<Rightarrow> bool" where
  "fresh interval cell ts \<longleftrightarrow> (\<forall>t\<in>set ts. fst (CheckRateLimit t cell interval))"

definition same_window :: "int64 \<Rightarrow> int64 list \<Rightarrow> bool" where
  "same_window interval ts \<longleftrightarrow>
     (\<forall>t\<in>set ts. \<forall>u\<in>set ts. \<not> fst (CheckRateLimit t u interval))"

subsection \<open>Invariants and measures of the proofs\<close>

text \<open>
  The calls that have returned, listed in \<open>order\<close>, give the results they returned and
  leave the cell as it is when they are run one after the other from the cell \<open>d0\<close>;
  a call about to compare-and-swap has passed the test on the value it loaded.
\<close>

definition lin_inv :: "int64 \<Rightarrow> int64 \<Rightarrow> config \<Rightarrow> nat list \<Rightarrow> bool" where
  "lin_inv I d0 c order \<longleftrightarrow>
     distinct order \<and> set order = {k. returned c k} \<and>
     RateLimit_seq d0 I (map (\<lambda>k. fst (snd c ! k)) order)
       = Some (map (\<lambda>k. snd (snd c ! k) = Returned True) order, fst c) \<and>
     (\<forall>k<length (snd c). \<forall>d. snd (snd c ! k) = AtCAS d \<longrightarrow> \<not> fst (snd c ! k) - d \<le>s I)"

text \<open>
  With a fresh cell \<open>d0\<close> and callers within one window: the number of its own steps
  after which a call has returned at the latest, and the invariant that bounds it.
\<close>

definition pot :: "int64 \<Rightarrow> int64 \<Rightarrow> call \<Rightarrow> nat" where
  "pot d0 cell pc =
     (case pc of
        Returned b \<Rightarrow> 0
      | AtCAS d \<Rightarrow> 2
      | AtLoad \<Rightarrow> if cell = d0 then 3 else 1)"

definition potential :: "int64 \<Rightarrow> config \<Rightarrow> nat \<Rightarrow> nat" where
  "potential d0 c k = pot d0 (fst c) (snd (snd c ! k))"

definition race_inv :: "int64 \<Rightarrow> int64 list \<Rightarrow> config \<Rightarrow> bool" where
  "race_inv d0 ts c \<longleftrightarrow>
     map fst (snd c) = ts \<and> (fst c = d0 \<or> fst c \<in> set ts) \<and>
     (\<forall>k<length ts. \<forall>d. snd (snd c ! k) = AtCAS d \<longrightarrow> d = d0)"

subsection \<open>Positions of the circular buffer\<close>

text \<open>
  The position that \<open>realmod(x, len(s.times))\<close> denotes in a state with a non-empty
  buffer: \<open>x\<close> reduced into \<open>0 \<le> \<dots> < len(s.times)\<close>.
\<close>

definition slot_of :: "SaturationLimit \<Rightarrow> go_int \<Rightarrow> nat" where
  "slot_of s x = nat (sint x mod int (length (times_sl s)))"

text \<open>
  The spec's \<open>k\<close> slots behind the current cursor, wrapping around at the buffer
  boundary; \<open>k\<close> is a mathematical integer, and \<open>k = - 1\<close> is the slot that the
  next \<open>append\<close> writes.
\<close>

definition slot_behind :: "SaturationLimit \<Rightarrow> int \<Rightarrow> nat" where
  "slot_behind s k = nat ((sint (index s) - k) mod int (length (times_sl s)))"

subsection \<open>Example states\<close>

text \<open>
  Capacity 5 after the timestamps 10, 20, 30, 40, 50 were appended to a fresh instance:
  the cursor is back at slot 0, which holds 50.
\<close>

definition ex5 :: SaturationLimit where
  "ex5 = \<lparr>times_sl = [50, 10, 20, 30, 40], index = 0\<rparr>"

text \<open>Capacity 5 after 10, 20, 30, 40 were appended to a fresh instance.\<close>

definition ex4 :: SaturationLimit where
  "ex4 = \<lparr>times_sl = [0, 10, 20, 30, 40], index = 4\<rparr>"

text \<open>Capacity 5 after 10, 50 were appended to a fresh instance.\<close>

definition ex2 :: SaturationLimit where
  "ex2 = \<lparr>times_sl = [0, 10, 50, 0, 0], index = 2\<rparr>"

text \<open>The least \<open>int64\<close>, Go's \<open>math.MinInt64\<close>.\<close>

definition MinInt64 :: int64 where
  "MinInt64 = - 9223372036854775808"

section \<open>Properties\<close>

subsection \<open>Signed 64-bit arithmetic\<close>

lemma sint_of_int_64:
  "- (2 ^ 63) \<le> k \<Longrightarrow> k < 2 ^ 63 \<Longrightarrow> sint (word_of_int k :: 64 word) = k"
  by (simp add: sint_sbintrunc' signed_take_bit_int_eq_self)

lemma sint_len: "length xs < 2 ^ 63 \<Longrightarrow> sint (len xs) = int (length xs)"
  unfolding len_def using sint_of_int_64 [of "int (length xs)"] by simp

lemma sint_bounds_64: "- (2 ^ 63) \<le> sint (x :: 64 word)" "sint (x :: 64 word) < 2 ^ 63"
  using sint_ge [of x] sint_lt [of x] by simp_all

lemma smod_pos_divisor:
  fixes k m :: int
  assumes "0 < m"
  shows "(if k smod m < 0 then k smod m + m else k smod m) = k mod m"
    and "- m < k smod m" and "k smod m < m"
proof -
  show "(if k smod m < 0 then k smod m + m else k smod m) = k mod m"
  proof -
    have b: "0 \<le> k mod m" "k mod m < m" using assms by simp_all
    have e: "k smod m = k mod m - m * of_bool (sgn k \<noteq> sgn m \<and> \<not> m dvd k)"
      by (rule signed_modulo_int_eq_modulo_int)
    show ?thesis
    proof (cases "sgn k \<noteq> sgn m \<and> \<not> m dvd k")
      case True
      then have "k smod m = k mod m - m" using e by simp
      then show ?thesis using b by simp
    next
      case False
      then have "k smod m = k mod m" using e by simp
      then show ?thesis using b by simp
    qed
  qed
  show "- m < k smod m" "k smod m < m"
    using smod_int_range [where a=k and b=m] assms by auto
qed

lemma realmod_pos:
  assumes "0 < sint m"
  shows "realmod x m = Inr (word_of_int (sint x mod sint m))"
proof -
  let ?r = "sint x smod sint m"
  have m: "sint m < 2 ^ 63" by (rule sint_bounds_64)
  have r: "- sint m < ?r" "?r < sint m"
    using smod_pos_divisor(2,3) [OF assms] by blast+
  have sr: "sint (go_rem x m) = ?r"
    unfolding go_rem_def using r m by (intro sint_of_int_64) linarith+
  have m0: "m \<noteq> 0" using assms by auto
  show ?thesis
  proof (cases "?r < 0")
    case True
    have "go_rem x m + m = word_of_int (?r + sint m)"
      by (simp add: go_rem_def)
    moreover have "?r + sint m = sint x mod sint m"
      using smod_pos_divisor(1) [OF assms, of "sint x"] True by simp
    ultimately show ?thesis
      using True sr m0 by (simp add: realmod_def Let_def word_sless_alt)
  next
    case False
    have "?r = sint x mod sint m"
      using smod_pos_divisor(1) [OF assms, of "sint x"] False by simp
    then show ?thesis
      using False sr m0 by (simp add: realmod_def Let_def word_sless_alt go_rem_def)
  qed
qed

lemma sint_mod_result:
  assumes "0 < sint (m :: 64 word)"
  shows "sint (word_of_int (k mod sint m) :: 64 word) = k mod sint m"
proof -
  have "0 \<le> k mod sint m" "k mod sint m < sint m"
    using assms by simp_all
  then show ?thesis
    using sint_bounds_64(2) [of m] by (intro sint_of_int_64) linarith+
qed

subsection \<open>The operations of SaturationLimit under the invariant\<close>

lemma sl_inv_facts:
  assumes "sl_inv s"
  shows "sint (len (times_sl s)) = int (length (times_sl s))"
    and "0 \<le> sint (index s)"
    and "sint (index s) < int (length (times_sl s))"
    and "0 < sint (len (times_sl s))"
proof -
  show l: "sint (len (times_sl s)) = int (length (times_sl s))"
    using assms by (simp add: sl_inv_def sint_len)
  show "0 \<le> sint (index s)"
    using assms by (simp add: sl_inv_def word_sle_eq)
  show "sint (index s) < int (length (times_sl s))"
    using assms l by (simp add: sl_inv_def word_sless_alt)
  then show "0 < sint (len (times_sl s))"
    using l \<open>0 \<le> sint (index s)\<close> by linarith
qed

text \<open>The slot that a cursor expression \<open>x\<close> is normalised to.\<close>

lemma realmod_slot:
  fixes x :: go_int
  assumes "sl_inv s"
  shows "realmod x (len (times_sl s)) = Inr (word_of_int (sint x mod int (length (times_sl s))))"
    and "sint (word_of_int (sint x mod int (length (times_sl s))) :: 64 word)
           = sint x mod int (length (times_sl s))"
    and "0 \<le> sint x mod int (length (times_sl s))"
    and "sint x mod int (length (times_sl s)) < int (length (times_sl s))"
proof -
  note f = sl_inv_facts [OF assms]
  show "realmod x (len (times_sl s)) = Inr (word_of_int (sint x mod int (length (times_sl s))))"
    using realmod_pos [OF f(4), of x] f(1) by simp
  show "sint (word_of_int (sint x mod int (length (times_sl s))) :: 64 word)
           = sint x mod int (length (times_sl s))"
    using sint_mod_result [OF f(4), of "sint x"] f(1) by simp
  show "0 \<le> sint x mod int (length (times_sl s))"
    using f(1,4) by simp
  show "sint x mod int (length (times_sl s)) < int (length (times_sl s))"
    using f(1,4) by simp
qed

lemma slice_get_slot:
  fixes x :: go_int
  assumes "sl_inv s"
  shows "slice_get (times_sl s) (word_of_int (sint x mod int (length (times_sl s))))
           = Inr (times_sl s ! nat (sint x mod int (length (times_sl s))))"
  using realmod_slot(2,3,4) [OF assms, of x] sl_inv_facts(1) [OF assms]
  by (simp add: slice_get_def word_sle_eq word_sless_alt)

lemma slice_get_index:
  assumes "sl_inv s"
  shows "slice_get (times_sl s) (index s) = Inr (times_sl s ! nat (sint (index s)))"
  using sl_inv_facts [OF assms]
  by (simp add: slice_get_def word_sle_eq word_sless_alt)

lemma check_slot:
  assumes "sl_inv s"
  shows "check s num period curtime =
           Inr (curtime - times_sl s ! nat (sint (index s - (num - 1)) mod int (length (times_sl s)))
                  \<le>s period)"
  using realmod_slot(1) [OF assms] slice_get_slot [OF assms]
  by (simp add: check_def)

lemma checkafter_slot:
  assumes "sl_inv s"
  shows "checkafter s num period =
           Inr (times_sl s ! nat (sint (index s))
                  - times_sl s ! nat (sint (index s - num) mod int (length (times_sl s)))
                  \<le>s period)"
  using realmod_slot(1) [OF assms] slice_get_slot [OF assms] slice_get_index [OF assms]
  by (simp add: checkafter_def)

lemma sint_index_succ:
  assumes "sl_inv s"
  shows "sint (index s + 1) = sint (index s) + 1"
proof -
  note f = sl_inv_facts [OF assms]
  have "sint (index s) + 1 < 2 ^ 63"
    using f(3) assms by (simp add: sl_inv_def)
  then show ?thesis
    using f(2) by (simp add: sint_word_add signed_take_bit_int_eq_self)
qed

lemma append_sl_slot:
  assumes "sl_inv s"
  shows "append_sl s t =
           Inr (s\<lparr>index := word_of_int ((sint (index s) + 1) mod int (length (times_sl s))),
                  times_sl := (times_sl s)[nat ((sint (index s) + 1) mod int (length (times_sl s))) := t]\<rparr>)"
  using realmod_slot [OF assms, of "index s + 1"] sl_inv_facts(1) [OF assms]
    sint_index_succ [OF assms]
  by (simp add: append_sl_def slice_set_def word_sle_eq word_sless_alt)

lemma append_sl_inv:
  assumes "sl_inv s" and "append_sl s t = Inr s'"
  shows "sl_inv s'"
proof -
  have s': "s' = s\<lparr>index := word_of_int ((sint (index s) + 1) mod int (length (times_sl s))),
                  times_sl := (times_sl s)[nat ((sint (index s) + 1) mod int (length (times_sl s))) := t]\<rparr>"
    using append_sl_slot [OF assms(1), of t] assms(2) by simp
  show ?thesis
    using realmod_slot(2,3,4) [OF assms(1), of "index s + 1"] assms(1)
      sint_index_succ [OF assms(1)]
    unfolding s' sl_inv_def
    by (simp add: word_sle_eq word_sless_alt sint_len)
qed

subsection \<open>Memory safety of the hot path\<close>

text \<open>
  C10. In every state with \<open>0 \<le> index < len(times)\<close> (so \<open>len(times) \<ge> 1\<close>), each of
  \<open>append\<close>, \<open>check\<close> and \<open>checkafter\<close> completes without a panic, for all values
  of \<open>t\<close>, \<open>num\<close>, \<open>period\<close> and \<open>curtime\<close>: no slice access is out of range
  and the modulus is never zero. \<open>append\<close> moreover re-establishes the invariant.
\<close>

theorem ops_in_bounds:
  assumes "sl_inv s"
  shows "(\<exists>s'. append_sl s t = Inr s' \<and> sl_inv s') \<and>
         (\<exists>b. check s num period curtime = Inr b) \<and>
         (\<exists>b. checkafter s num period = Inr b)"
proof (intro conjI)
  show "\<exists>s'. append_sl s t = Inr s' \<and> sl_inv s'"
    using append_sl_slot [OF assms, of t] append_sl_inv [OF assms] by blast
  show "\<exists>b. check s num period curtime = Inr b"
    using check_slot [OF assms] by blast
  show "\<exists>b. checkafter s num period = Inr b"
    using checkafter_slot [OF assms] by blast
qed

theorem ops_in_bounds_witness:
  "sl_inv ex5 \<and>
   (\<exists>s'. append_sl ex5 60 = Inr s' \<and> sl_inv s') \<and>
   (\<exists>b. check ex5 (- 7) 25 55 = Inr b) \<and>
   (\<exists>b. checkafter ex5 12 25 = Inr b)"
proof -
  have h: "sl_inv ex5" by (simp add: sl_inv_def ex5_def len_def word_sle_eq word_sless_alt)
  show ?thesis using h ops_in_bounds [OF h] by blast
qed

subsection \<open>Slots behind the cursor\<close>

lemma slot_behind_less:
  assumes "sl_inv s"
  shows "slot_behind s k < length (times_sl s)"
proof -
  have "0 < int (length (times_sl s))"
    using sl_inv_facts(2,3) [OF assms] by linarith
  then have "(sint (index s) - k) mod int (length (times_sl s)) < int (length (times_sl s))"
    by simp
  then show ?thesis
    unfolding slot_behind_def using \<open>0 < int (length (times_sl s))\<close> by linarith
qed

lemma slot_behind_0:
  assumes "sl_inv s"
  shows "slot_behind s 0 = nat (sint (index s))"
  using sl_inv_facts(2,3) [OF assms] by (simp add: slot_behind_def)

lemma sint_cursor_minus:
  fixes num :: go_int
  assumes "sl_inv s" and "- 1 \<le> sint num" and "sint num < int (length (times_sl s))"
  shows "sint (index s - num) = sint (index s) - sint num"
proof -
  note f = sl_inv_facts [OF assms(1)]
  have l: "int (length (times_sl s)) < 2 ^ 63"
    using assms(1) by (simp add: sl_inv_def)
  have "- (2 ^ 63) \<le> sint (index s) - sint num" "sint (index s) - sint num < 2 ^ 63"
    using f(2,3) assms(2,3) l by linarith+
  then show ?thesis
    by (simp add: sint_word_diff signed_take_bit_int_eq_self)
qed

lemma sint_num_pred:
  fixes num :: go_int
  assumes "0 \<le> sint num"
  shows "sint (num - 1) = sint num - 1"
proof -
  have "sint num - 1 < 2 ^ 63" using sint_bounds_64(2) [of num] by linarith
  then show ?thesis
    using assms by (simp add: sint_word_diff signed_take_bit_int_eq_self)
qed

lemma word_of_slot_behind:
  assumes "sl_inv s"
  shows "(word_of_int ((sint (index s) - k) mod int (length (times_sl s))) :: go_int)
           = word_of_nat (slot_behind s k)"
proof -
  have "0 < int (length (times_sl s))"
    using sl_inv_facts(2,3) [OF assms] by linarith
  then have "0 \<le> (sint (index s) - k) mod int (length (times_sl s))"
    by simp
  then show ?thesis
    by (simp add: slot_behind_def)
qed

lemma realmod_behind:
  assumes "sl_inv s" and "- 1 \<le> sint num" and "sint num < int (length (times_sl s))"
  shows "realmod (index s - num) (len (times_sl s)) = Inr (word_of_nat (slot_behind s (sint num)))"
  using realmod_slot(1) [OF assms(1), of "index s - num"]
    word_of_slot_behind [OF assms(1), of "sint num"]
  unfolding sint_cursor_minus [OF assms] by simp

lemma check_behind:
  assumes "sl_inv s" and "0 \<le> sint num" and "sint num < int (length (times_sl s))"
  shows "check s num period curtime
           = Inr (curtime - times_sl s ! slot_behind s (sint num - 1) \<le>s period)"
proof -
  have "sint (index s - (num - 1)) = sint (index s) - (sint num - 1)"
    using sint_cursor_minus [OF assms(1), of "num - 1"] sint_num_pred [OF assms(2)] assms(2,3)
    by simp
  then show ?thesis
    using check_slot [OF assms(1), of num period curtime] by (simp add: slot_behind_def)
qed

lemma checkafter_behind:
  assumes "sl_inv s" and "0 \<le> sint num" and "sint num < int (length (times_sl s))"
  shows "checkafter s num period
           = Inr (times_sl s ! slot_behind s 0 - times_sl s ! slot_behind s (sint num)
                    \<le>s period)"
proof -
  have "sint (index s - num) = sint (index s) - sint num"
    using sint_cursor_minus [OF assms(1), of num] assms(2,3) by simp
  then show ?thesis
    using checkafter_slot [OF assms(1), of num period] slot_behind_0 [OF assms(1)]
    by (simp add: slot_behind_def)
qed

subsection \<open>What a sequence of appends leaves behind the cursor\<close>

lemma appends_snoc:
  "appends s (ts @ [t]) = (case appends s ts of Inl e \<Rightarrow> Inl e | Inr s' \<Rightarrow> append_sl s' t)"
  by (induction ts arbitrary: s) (auto split: sum.splits)

lemma append_sl_length:
  assumes "sl_inv s" and "append_sl s t = Inr s'"
  shows "length (times_sl s') = length (times_sl s)"
  using append_sl_slot [OF assms(1), of t] assms(2) by auto

lemma appends_total:
  assumes "sl_inv s"
  shows "\<exists>s'. appends s ts = Inr s' \<and> sl_inv s' \<and> length (times_sl s') = length (times_sl s)"
  using assms
proof (induction ts arbitrary: s)
  case Nil
  then show ?case by simp
next
  case (Cons t ts)
  obtain s1 where s1: "append_sl s t = Inr s1"
    using append_sl_slot [OF Cons.prems, of t] by blast
  have i1: "sl_inv s1" using append_sl_inv [OF Cons.prems s1] .
  have l1: "length (times_sl s1) = length (times_sl s)"
    using append_sl_length [OF Cons.prems s1] .
  from Cons.IH [OF i1] obtain s' where
    "appends s1 ts = Inr s'" "sl_inv s'" "length (times_sl s') = length (times_sl s1)"
    by blast
  then show ?case using s1 l1 by simp
qed

lemma append_sl_newest:
  assumes "sl_inv s" and "append_sl s t = Inr s'"
  shows "times_sl s' ! slot_behind s' 0 = t"
proof -
  let ?C = "int (length (times_sl s))"
  let ?j = "(sint (index s) + 1) mod ?C"
  note r = realmod_slot(2,3,4) [OF assms(1), of "index s + 1"]
  have s': "s' = s\<lparr>index := word_of_int ?j, times_sl := (times_sl s)[nat ?j := t]\<rparr>"
    using append_sl_slot [OF assms(1), of t] assms(2) by simp
  have j: "sint (index s') = ?j" "0 \<le> ?j" "?j < ?C"
    using r sint_index_succ [OF assms(1)] by (simp_all add: s')
  have "slot_behind s' 0 = nat ?j"
    using j by (simp add: slot_behind_def s')
  then show ?thesis
    using j by (simp add: s')
qed

lemma append_sl_older:
  assumes "sl_inv s" and "append_sl s t = Inr s'"
    and "0 < k" and "k < int (length (times_sl s))"
  shows "times_sl s' ! slot_behind s' k = times_sl s ! slot_behind s (k - 1)"
proof -
  let ?C = "int (length (times_sl s))"
  let ?j = "(sint (index s) + 1) mod ?C"
  note r = realmod_slot(2,3,4) [OF assms(1), of "index s + 1"]
  have s': "s' = s\<lparr>index := word_of_int ?j, times_sl := (times_sl s)[nat ?j := t]\<rparr>"
    using append_sl_slot [OF assms(1), of t] assms(2) by simp
  have j: "sint (index s') = ?j" "0 \<le> ?j" "?j < ?C"
    using r sint_index_succ [OF assms(1)] by (simp_all add: s')
  have e: "(?j - k) mod ?C = (sint (index s) - (k - 1)) mod ?C"
  proof -
    have "(?j - k) mod ?C = (sint (index s) + 1 - k) mod ?C"
      by (rule mod_diff_left_eq)
    then show ?thesis by (simp add: algebra_simps)
  qed
  have ne: "(?j - k) mod ?C \<noteq> ?j"
  proof
    assume "(?j - k) mod ?C = ?j"
    then have "(?j - k) mod ?C = ?j mod ?C" using j by simp
    then have "?C dvd (?j - (?j - k))" using mod_eq_dvd_iff by metis
    then have "?C dvd k" by simp
    then show False using assms(3,4) zdvd_not_zless by blast
  qed
  have sb: "slot_behind s' k = slot_behind s (k - 1)"
    using e j by (simp add: slot_behind_def s')
  have "0 < ?C" using j by linarith
  then have "0 \<le> (?j - k) mod ?C" by simp
  then have "slot_behind s (k - 1) \<noteq> nat ?j"
    using ne j(2) e by (simp add: slot_behind_def)
  then show ?thesis
    unfolding sb by (simp add: s')
qed

lemma appends_recent:
  assumes "sl_inv s0" and "appends s0 ts = Inr s"
    and "k < length ts" and "k < length (times_sl s0)"
  shows "times_sl s ! slot_behind s (int k) = rev ts ! k"
  using assms(2,3,4)
proof (induction ts arbitrary: s k rule: rev_induct)
  case Nil
  then show ?case by simp
next
  case (snoc t ts)
  obtain s1 where s1: "appends s0 ts = Inr s1" "sl_inv s1"
    "length (times_sl s1) = length (times_sl s0)"
    using appends_total [OF assms(1), of ts] by blast
  have a: "append_sl s1 t = Inr s"
    using snoc.prems(1) s1(1) by (simp add: appends_snoc)
  show ?case
  proof (cases k)
    case 0
    then show ?thesis using append_sl_newest [OF s1(2) a] by simp
  next
    case (Suc k')
    have "times_sl s ! slot_behind s (int k) = times_sl s1 ! slot_behind s1 (int k - 1)"
      using append_sl_older [OF s1(2) a, of "int k"] Suc snoc.prems(3) s1(3) by simp
    also have "\<dots> = rev ts ! k'"
      using snoc.IH [OF s1(1), of k'] Suc snoc.prems(2,3) by simp
    finally show ?thesis using Suc by simp
  qed
qed

lemma slot_word:
  assumes "sl_inv s" and "n < length (times_sl s)"
  shows "0 \<le>s (word_of_nat n :: go_int)" and "(word_of_nat n :: go_int) <s len (times_sl s)"
proof -
  have l: "int (length (times_sl s)) < 2 ^ 63"
    using assms(1) by (simp add: sl_inv_def)
  have "sint (word_of_int (int n) :: go_int) = int n"
    using assms(2) l by (intro sint_of_int_64) linarith+
  then have n: "sint (word_of_nat n :: go_int) = int n" by simp
  show "0 \<le>s (word_of_nat n :: go_int)"
    using n by (simp add: word_sle_eq)
  show "(word_of_nat n :: go_int) <s len (times_sl s)"
    using n assms(2) sl_inv_facts(1) [OF assms(1)] by (simp add: word_sless_alt)
qed

text \<open>
  C5. For \<open>0 \<le> num < C\<close>, \<open>check(num, period, curtime)\<close> reads the slot \<open>num - 1\<close>
  behind the cursor and \<open>checkafter(num, period)\<close> the slot \<open>num\<close> behind it (and the
  cursor's own slot), wrapping around at the buffer boundary; the index that
  \<open>realmod\<close> computes is that slot, never negative and less than \<open>len(times)\<close>.
\<close>

theorem reads_behind_cursor:
  assumes "sl_inv s" and "0 \<le>s num" and "num <s len (times_sl s)"
  shows "realmod (index s - (num - 1)) (len (times_sl s))
           = Inr (word_of_nat (slot_behind s (sint num - 1))) \<and>
         0 \<le>s (word_of_nat (slot_behind s (sint num - 1)) :: go_int) \<and>
         (word_of_nat (slot_behind s (sint num - 1)) :: go_int) <s len (times_sl s) \<and>
         check s num period curtime
           = Inr (curtime - times_sl s ! slot_behind s (sint num - 1) \<le>s period) \<and>
         realmod (index s - num) (len (times_sl s))
           = Inr (word_of_nat (slot_behind s (sint num))) \<and>
         0 \<le>s (word_of_nat (slot_behind s (sint num)) :: go_int) \<and>
         (word_of_nat (slot_behind s (sint num)) :: go_int) <s len (times_sl s) \<and>
         checkafter s num period
           = Inr (times_sl s ! slot_behind s 0 - times_sl s ! slot_behind s (sint num)
                    \<le>s period)"
proof -
  have n: "0 \<le> sint num" "sint num < int (length (times_sl s))"
    using assms(2,3) sl_inv_facts(1) [OF assms(1)]
    by (simp_all add: word_sle_eq word_sless_alt)
  have "realmod (index s - (num - 1)) (len (times_sl s))
           = Inr (word_of_nat (slot_behind s (sint num - 1)))"
    using realmod_behind [OF assms(1), of "num - 1"] sint_num_pred [OF n(1)] n by simp
  moreover have "realmod (index s - num) (len (times_sl s))
           = Inr (word_of_nat (slot_behind s (sint num)))"
    using realmod_behind [OF assms(1), of num] n by simp
  ultimately show ?thesis
    using check_behind [OF assms(1) n, of period curtime]
      checkafter_behind [OF assms(1) n, of period]
      slot_word [OF assms(1) slot_behind_less [OF assms(1)]]
    by simp
qed

theorem reads_behind_cursor_witness:
  "sl_inv ex5 \<and> 0 \<le>s (2 :: go_int) \<and> 2 <s len (times_sl ex5) \<and>
   slot_behind ex5 (sint (2 :: go_int) - 1) = 4 \<and>
   check ex5 2 25 55 = Inr (55 - times_sl ex5 ! 4 \<le>s 25) \<and>
   slot_behind ex5 (sint (2 :: go_int)) = 3 \<and>
   checkafter ex5 2 25 = Inr (times_sl ex5 ! 0 - times_sl ex5 ! 3 \<le>s 25)"
proof -
  have h: "sl_inv ex5" "0 \<le>s (2 :: go_int)" "2 <s len (times_sl ex5)"
    by (simp_all add: sl_inv_def ex5_def len_def word_sle_eq word_sless_alt)
  have e: "slot_behind ex5 (sint (2 :: go_int) - 1) = 4" "slot_behind ex5 (sint (2 :: go_int)) = 3"
    "slot_behind ex5 0 = 0"
    by (simp_all add: slot_behind_def ex5_def)
  show ?thesis
    using h e reads_behind_cursor [OF h, of 25 55] by simp
qed

text \<open>
  C1, as the code has it. \<open>checkafter(0, period)\<close> compares the cursor's slot with
  itself, so after any sequence of appends it is true iff \<open>0 \<le> period\<close>, whatever
  was appended. The two most recently appended timestamps, \<open>a\<close> and then \<open>b\<close>, are
  compared by \<open>checkafter(1, period)\<close>, which for a capacity of at least 2 is true iff
  \<open>b - a \<le> period\<close> (the difference as \<open>int64\<close> computes it).
\<close>

theorem checkafter_recent:
  assumes "sl_inv s0"
  shows "(\<exists>s. appends s0 ts = Inr s \<and> checkafter s 0 period = Inr (0 \<le>s period)) \<and>
         (2 \<le> length (times_sl s0) \<longrightarrow>
            (\<exists>s. appends s0 (ts @ [a, b]) = Inr s \<and>
                 checkafter s 1 period = Inr (b - a \<le>s period)))"
proof (intro conjI impI)
  obtain s where s: "appends s0 ts = Inr s" "sl_inv s"
    using appends_total [OF assms, of ts] by blast
  have "0 < int (length (times_sl s))"
    using sl_inv_facts(2,3) [OF s(2)] by linarith
  then have "checkafter s 0 period = Inr (0 \<le>s period)"
    using checkafter_behind [OF s(2), of 0 period] by simp
  then show "\<exists>s. appends s0 ts = Inr s \<and> checkafter s 0 period = Inr (0 \<le>s period)"
    using s(1) by blast
next
  assume c: "2 \<le> length (times_sl s0)"
  obtain s where s: "appends s0 (ts @ [a, b]) = Inr s" "sl_inv s"
    "length (times_sl s) = length (times_sl s0)"
    using appends_total [OF assms, of "ts @ [a, b]"] by blast
  have l: "0 < length (ts @ [a, b])" "0 < length (times_sl s0)"
    "1 < length (ts @ [a, b])" "1 < length (times_sl s0)"
    using c by auto
  have "times_sl s ! slot_behind s (int 0) = rev (ts @ [a, b]) ! 0"
    by (rule appends_recent [OF assms s(1) l(1,2)])
  moreover have "times_sl s ! slot_behind s (int 1) = rev (ts @ [a, b]) ! 1"
    by (rule appends_recent [OF assms s(1) l(3,4)])
  ultimately have "checkafter s 1 period = Inr (b - a \<le>s period)"
    using checkafter_behind [OF s(2), of 1 period] c s(3) by simp
  then show "\<exists>s. appends s0 (ts @ [a, b]) = Inr s \<and>
                 checkafter s 1 period = Inr (b - a \<le>s period)"
    using s(1) by blast
qed

theorem checkafter_recent_witness:
  "sl_inv (new_limit 5) \<and> 2 \<le> length (times_sl (new_limit 5)) \<and>
   (\<exists>s. appends (new_limit 5) [7, 8] = Inr s \<and> checkafter s 0 5 = Inr ((0 :: int64) \<le>s 5)) \<and>
   (\<exists>s. appends (new_limit 5) ([7, 8] @ [10, 50]) = Inr s \<and>
        checkafter s 1 5 = Inr ((50 :: int64) - 10 \<le>s 5))"
proof -
  have h: "sl_inv (new_limit 5)"
    by (simp add: sl_inv_def new_limit_def len_def word_sle_eq word_sless_alt)
  have c: "2 \<le> length (times_sl (new_limit 5))"
    by (simp add: new_limit_def)
  show ?thesis
    using h c checkafter_recent [OF h, of "[7, 8]" 5 10 50] by blast
qed

text \<open>
  C1 as stated fails: after 10 and 50 were appended, the two most recent timestamps
  differ by 40, more than the period 5, and \<open>checkafter(0, 5)\<close> is true.
\<close>

theorem checkafter_zero_counterexample:
  "appends (new_limit 5) [10, 50] = Inr ex2 \<and>
   checkafter ex2 0 5 = Inr True \<and>
   \<not> ((50 :: int64) - 10 \<le>s 5)"
  by code_simp

subsection \<open>resize\<close>

text \<open>
  For a size that \<open>make\<close> accepts, \<open>resize\<close> keeps the invariant exactly when the
  new length is greater than the cursor, in particular whenever the buffer does not
  shrink.
\<close>

lemma resize_keeps_cursor:
  assumes "sl_inv s" and "0 \<le>s sz" and "8 * sint sz \<le> maxAlloc"
  shows "\<exists>s'. resize s sz = Inr s' \<and> length (times_sl s') = nat (sint sz) \<and>
              index s' = index s \<and> (sl_inv s' \<longleftrightarrow> index s <s sz)"
proof -
  define n where "n = nat (sint sz)"
  define ys where "ys = take n (times_sl s) @ replicate (n - length (times_sl s)) 0"
  have z: "0 \<le> sint sz" using assms(2) by (simp add: word_sle_eq)
  have r: "resize s sz = Inr (s\<lparr>times_sl := ys\<rparr>)"
    using assms(2,3) by (simp add: resize_def Let_def signed.not_less n_def ys_def)
  have l: "length ys = n" by (simp add: ys_def)
  have b: "n < 2 ^ 63"
    using sint_bounds_64(2) [of sz] z by (simp add: nat_less_iff n_def)
  have "sint (len ys) = int (length ys)"
    using b l by (intro sint_len) simp
  then have e: "sint (len ys) = sint sz" using z l by (simp add: n_def)
  have "sl_inv (s\<lparr>times_sl := ys\<rparr>) \<longleftrightarrow> index s <s sz"
    using sl_inv_facts(2) [OF assms(1)] b e l
    unfolding sl_inv_def by (simp add: word_sle_eq word_sless_alt)
  then show ?thesis using r l by (simp add: n_def)
qed

text \<open>
  C2. \<open>resize\<close> replaces the backing slice and leaves \<open>index\<close> as it was. After four
  appends to a fresh instance of capacity 5 the cursor is 4; \<open>resize(2)\<close> then leaves
  the cursor 4 with a backing slice of length 2, outside the invariant, and the next
  \<open>checkafter\<close>, which reads \<open>s.times[s.index]\<close> as it stands, panics.
\<close>

theorem resize_shrink_cursor_out_of_range:
  "appends (new_limit 5) [10, 20, 30, 40] = Inr ex4 \<and>
   sl_inv ex4 \<and>
   resize ex4 2 = Inr \<lparr>times_sl = [0, 10], index = 4\<rparr> \<and>
   \<not> sl_inv \<lparr>times_sl = [0, 10], index = 4\<rparr> \<and>
   checkafter \<lparr>times_sl = [0, 10], index = 4\<rparr> 1 25 = Inl IndexOutOfRange"
proof (intro conjI)
  show "appends (new_limit 5) [10, 20, 30, 40] = Inr ex4"
    by code_simp
  show "sl_inv ex4"
    by (simp add: sl_inv_def ex4_def len_def word_sle_eq word_sless_alt)
  show "resize ex4 2 = Inr \<lparr>times_sl = [0, 10], index = 4\<rparr>"
    by code_simp
  show "\<not> sl_inv \<lparr>times_sl = [0, 10], index = 4\<rparr>"
    by (simp add: sl_inv_def len_def word_sle_eq word_sless_alt)
  show "checkafter \<lparr>times_sl = [0, 10], index = 4\<rparr> 1 25 = Inl IndexOutOfRange"
    by code_simp
qed

text \<open>
  C3, as the code has it. \<open>resize\<close> validates nothing. A negative size makes the
  allocation panic, and the state is not replaced. Size 0 succeeds and
  leaves an empty backing slice, in which every later \<open>append\<close>, \<open>check\<close> and
  \<open>checkafter\<close> panics with a division by zero in \<open>realmod\<close>; so does
  \<open>append\<close> on an instance made with a backing slice of length 0.
\<close>

theorem resize_nonpositive:
  "(sz <s 0 \<longrightarrow> resize s sz = Inl MakeSliceLenOutOfRange) \<and>
   resize s 0 = Inr (s\<lparr>times_sl := []\<rparr>) \<and>
   append_sl (s\<lparr>times_sl := []\<rparr>) t = Inl DivideByZero \<and>
   check (s\<lparr>times_sl := []\<rparr>) num period curtime = Inl DivideByZero \<and>
   checkafter (s\<lparr>times_sl := []\<rparr>) num period = Inl DivideByZero \<and>
   append_sl (new_limit 0) t = Inl DivideByZero"
  by (simp add: resize_def maxAlloc_def append_sl_def check_def checkafter_def realmod_def
      len_def new_limit_def)

theorem resize_nonpositive_witness:
  "(- 3 :: go_int) <s 0 \<and> resize ex5 (- 3) = Inl MakeSliceLenOutOfRange \<and>
   resize ex5 0 = Inr (ex5\<lparr>times_sl := []\<rparr>) \<and>
   append_sl (ex5\<lparr>times_sl := []\<rparr>) 60 = Inl DivideByZero"
proof -
  have h: "(- 3 :: go_int) <s 0" by (simp add: word_sless_alt)
  show ?thesis
    using h resize_nonpositive [of "- 3" ex5 60] by simp
qed

text \<open>
  C3 as stated fails: \<open>resize(0)\<close> is not rejected; it succeeds, and the next
  \<open>append\<close> divides by zero.
\<close>

theorem resize_zero_counterexample:
  "resize ex5 0 = Inr \<lparr>times_sl = [], index = 0\<rparr> \<and>
   append_sl \<lparr>times_sl = [], index = 0\<rparr> 60 = Inl DivideByZero"
  by code_simp

subsection \<open>The worked example of the spec\<close>

text \<open>
  C6, as the code has it. On any instance of capacity 5, after 10, 20, 30, 40, 50 were
  appended in order, \<open>check(2, 25, 55)\<close> reads the slot one behind the cursor, which
  holds 40, and is true (\<open>55 - 40 = 15 \<le> 25\<close>); \<open>check(4, 25, 55)\<close> reads the slot
  three behind the cursor, which holds 20, and is false (\<open>55 - 20 = 35 > 25\<close>).
\<close>

theorem check_example:
  assumes "sl_inv s0" and "length (times_sl s0) = 5"
  shows "\<exists>s. appends s0 [10, 20, 30, 40, 50] = Inr s \<and>
             realmod (index s - (2 - 1)) (len (times_sl s)) = Inr (word_of_nat (slot_behind s 1)) \<and>
             times_sl s ! slot_behind s 1 = 40 \<and>
             check s 2 25 55 = Inr True \<and>
             realmod (index s - (4 - 1)) (len (times_sl s)) = Inr (word_of_nat (slot_behind s 3)) \<and>
             times_sl s ! slot_behind s 3 = 20 \<and>
             check s 4 25 55 = Inr False"
proof -
  obtain s where s: "appends s0 [10, 20, 30, 40, 50] = Inr s" "sl_inv s"
    "length (times_sl s) = length (times_sl s0)"
    using appends_total [OF assms(1), of "[10, 20, 30, 40, 50]"] by blast
  have r1: "times_sl s ! slot_behind s (int 1) = rev [10, 20, 30, 40, 50] ! 1"
    using assms(2) by (intro appends_recent [OF assms(1) s(1)]) simp_all
  have r3: "times_sl s ! slot_behind s (int 3) = rev [10, 20, 30, 40, 50] ! 3"
    using assms(2) by (intro appends_recent [OF assms(1) s(1)]) simp_all
  have v: "times_sl s ! slot_behind s 1 = 40" "times_sl s ! slot_behind s 3 = 20"
    using r1 r3 by simp_all
  have l: "length (times_sl s) = 5" using s(3) assms(2) by simp
  have c2: "check s 2 25 55 = Inr True"
    using check_behind [OF s(2), of 2 25 55] l v by simp
  have c4: "check s 4 25 55 = Inr False"
    using check_behind [OF s(2), of 4 25 55] l v by simp
  have i2: "realmod (index s - (2 - 1)) (len (times_sl s)) = Inr (word_of_nat (slot_behind s 1))"
    using realmod_behind [OF s(2), of 1] l by simp
  have i4: "realmod (index s - (4 - 1)) (len (times_sl s)) = Inr (word_of_nat (slot_behind s 3))"
    using realmod_behind [OF s(2), of 3] l by simp
  show ?thesis
    using s(1) v c2 c4 i2 i4 by blast
qed

theorem check_example_witness:
  "sl_inv (new_limit 5) \<and> length (times_sl (new_limit 5)) = 5 \<and>
   (\<exists>s. appends (new_limit 5) [10, 20, 30, 40, 50] = Inr s \<and>
        times_sl s ! slot_behind s 1 = 40 \<and> check s 2 25 55 = Inr True \<and>
        times_sl s ! slot_behind s 3 = 20 \<and> check s 4 25 55 = Inr False)"
proof -
  have h: "sl_inv (new_limit 5)"
    by (simp add: sl_inv_def new_limit_def len_def word_sle_eq word_sless_alt)
  have c: "length (times_sl (new_limit 5)) = 5"
    by (simp add: new_limit_def)
  show ?thesis
    using h c check_example [OF h c] by blast
qed

text \<open>
  C6 as stated fails on the slots: in the state of the example \<open>check(2, \<dots>)\<close> computes
  index 4, which holds 40 and not 30, and \<open>check(4, \<dots>)\<close> computes index 2, which holds
  20 and not 10. The difference shows with other periods: \<open>check(2, 20, 55)\<close> is true,
  where the slot holding 30 would give \<open>25 \<le> 20\<close>; \<open>check(4, 40, 55)\<close> is true, where
  the slot holding 10 would give \<open>45 \<le> 40\<close>.
\<close>

theorem check_example_counterexample:
  "appends (new_limit 5) [10, 20, 30, 40, 50] = Inr ex5 \<and>
   realmod (index ex5 - (2 - 1)) (len (times_sl ex5)) = Inr 4 \<and>
   times_sl ex5 ! 4 = 40 \<and>
   check ex5 2 20 55 = Inr True \<and> \<not> ((55 :: int64) - 30 \<le>s 20) \<and>
   realmod (index ex5 - (4 - 1)) (len (times_sl ex5)) = Inr 2 \<and>
   times_sl ex5 ! 2 = 20 \<and>
   check ex5 4 40 55 = Inr True \<and> \<not> ((55 :: int64) - 10 \<le>s 40)"
  by code_simp

subsection \<open>Timestamps ahead of the current time\<close>

lemma check_slot_of:
  assumes "sl_inv s"
  shows "realmod (index s - (num - 1)) (len (times_sl s))
           = Inr (word_of_nat (slot_of s (index s - (num - 1))))"
    and "slot_of s (index s - (num - 1)) < length (times_sl s)"
    and "check s num period curtime
           = Inr (curtime - times_sl s ! slot_of s (index s - (num - 1)) \<le>s period)"
proof -
  note r = realmod_slot [OF assms, of "index s - (num - 1)"]
  show "realmod (index s - (num - 1)) (len (times_sl s))
           = Inr (word_of_nat (slot_of s (index s - (num - 1))))"
    using r(1,3) by (simp add: slot_of_def)
  show "slot_of s (index s - (num - 1)) < length (times_sl s)"
    using r(3,4) by (simp add: slot_of_def)
  show "check s num period curtime
           = Inr (curtime - times_sl s ! slot_of s (index s - (num - 1)) \<le>s period)"
    using check_slot [OF assms, of num period curtime] by (simp add: slot_of_def)
qed

text \<open>
  C9, as the code has it. For every \<open>period \<ge> 0\<close>, whenever the timestamp that
  \<open>check\<close> reads is greater than \<open>curtime\<close> and the difference
  \<open>curtime - timestamp\<close> is not below the least \<open>int64\<close>, the difference is
  negative and \<open>check\<close> returns true.
\<close>

theorem check_future_timestamp:
  assumes "sl_inv s" and "0 \<le>s period"
    and "curtime <s times_sl s ! slot_of s (index s - (num - 1))"
    and "- (2 ^ 63) \<le> sint curtime - sint (times_sl s ! slot_of s (index s - (num - 1)))"
  shows "curtime - times_sl s ! slot_of s (index s - (num - 1)) <s 0 \<and>
         check s num period curtime = Inr True"
proof -
  let ?v = "times_sl s ! slot_of s (index s - (num - 1))"
  have lt: "sint curtime - sint ?v < 0"
    using assms(3) by (simp add: word_sless_alt)
  then have "sint curtime - sint ?v < 2 ^ 63"
    by (rule less_trans) simp
  then have d: "sint (curtime - ?v) = sint curtime - sint ?v"
    using assms(4) by (simp add: sint_word_diff signed_take_bit_int_eq_self)
  have neg: "curtime - ?v <s 0"
    using d lt by (simp add: word_sless_alt)
  have "curtime - ?v \<le>s period"
    using d lt assms(2) by (simp add: word_sle_eq)
  then show ?thesis
    using neg check_slot_of(3) [OF assms(1), of num period curtime] by simp
qed

theorem check_future_timestamp_witness:
  "sl_inv ex5 \<and> (0 :: int64) \<le>s 25 \<and>
   slot_of ex5 (index ex5 - (1 - 1)) = 0 \<and>
   (45 :: int64) <s times_sl ex5 ! 0 \<and>
   check ex5 1 25 45 = Inr True"
proof -
  have h: "sl_inv ex5" "(0 :: int64) \<le>s 25"
    by (simp_all add: sl_inv_def ex5_def len_def word_sle_eq word_sless_alt)
  have e: "slot_of ex5 (index ex5 - (1 - 1)) = 0"
    by (simp add: slot_of_def ex5_def)
  have g: "(45 :: int64) <s times_sl ex5 ! slot_of ex5 (index ex5 - (1 - 1))"
    "- (2 ^ 63) \<le> sint (45 :: int64) - sint (times_sl ex5 ! slot_of ex5 (index ex5 - (1 - 1)))"
    unfolding e by (simp_all add: ex5_def word_sless_alt)
  show ?thesis
    using h e g check_future_timestamp [OF h g] by simp
qed

text \<open>
  C9 as stated fails where the subtraction wraps around: with \<open>curtime\<close> the least
  \<open>int64\<close> and the timestamp 50 read, \<open>curtime - 50\<close> is \<open>2^63 - 50\<close>, which is
  positive and greater than the period 0, and \<open>check\<close> returns false.
\<close>

theorem check_future_timestamp_counterexample:
  "(0 :: int64) \<le>s 0 \<and>
   realmod (index ex5 - (1 - 1)) (len (times_sl ex5)) = Inr 0 \<and>
   MinInt64 <s times_sl ex5 ! 0 \<and>
   \<not> (MinInt64 - times_sl ex5 ! 0 <s 0) \<and>
   check ex5 1 0 MinInt64 = Inr False"
  by code_simp

subsection \<open>RateLimit and CheckRateLimit, one goroutine\<close>

lemma RateLimit_eq:
  "RateLimit now cell interval =
     Some (if now - cell \<le>s interval then (False, cell) else (True, now))"
  unfolding RateLimit_def
  by (subst RateLimit_loop.simps) (simp add: LoadInt64_def CompareAndSwapInt64_def)

text \<open>
  C7. At one reading of the clock, \<open>CheckRateLimit\<close> is true exactly when \<open>RateLimit\<close>
  returns true, and \<open>CheckRateLimit\<close> leaves the cell as it was.
\<close>

theorem CheckRateLimit_agrees:
  "(\<exists>cell'. RateLimit now cell interval = Some (fst (CheckRateLimit now cell interval), cell')) \<and>
   snd (CheckRateLimit now cell interval) = cell"
  by (auto simp add: RateLimit_eq CheckRateLimit_def LoadInt64_def signed.not_less)

lemma RateLimit_seq_rejected:
  assumes "\<forall>t\<in>set ts. t - c \<le>s I"
  shows "RateLimit_seq c I (ts @ us) =
           map_option (\<lambda>(bs, c'). (replicate (length ts) False @ bs, c')) (RateLimit_seq c I us)"
  using assms
proof (induction ts)
  case Nil
  then show ?case by (cases "RateLimit_seq c I us") auto
next
  case (Cons t ts)
  then show ?case
    by (cases "RateLimit_seq c I us") (auto simp add: RateLimit_eq)
qed

lemma sint_diff_exact:
  fixes a b :: int64
  assumes "- (2 ^ 63) \<le> sint a - sint b" and "sint a - sint b < 2 ^ 63"
  shows "sint (a - b) = sint a - sint b"
  using assms by (simp add: sint_word_diff signed_take_bit_int_eq_self)

text \<open>
  C4, as the code has it. A call at clock reading \<open>t\<close> on a cell holding \<open>c\<close> returns
  false and leaves the cell when \<open>t - c \<le> I\<close> as \<open>int64\<close> computes it, and otherwise
  returns true and sets the cell to \<open>t\<close>. Consequently, for \<open>I \<ge> 0\<close> and a cell
  seeded at \<open>d\<close> with \<open>d + I < t0\<close>, where \<open>t0 - d\<close> does not exceed the greatest
  \<open>int64\<close>: the first call, at \<open>t0\<close>, returns true; every later call at a time \<open>t\<close>
  with \<open>t0 \<le> t \<le> t0 + I\<close> returns false; and a call after those at a time \<open>t'\<close> with
  \<open>t0 + I + 1 \<le> t'\<close>, where \<open>t' - t0\<close> does not exceed the greatest \<open>int64\<close>,
  returns true again and sets the cell to \<open>t'\<close>.
\<close>

theorem RateLimit_window:
  assumes "0 \<le>s I"
    and "sint d + sint I < sint t0" and "sint t0 - sint d < 2 ^ 63"
    and "\<forall>t\<in>set ts. sint t0 \<le> sint t \<and> sint t \<le> sint t0 + sint I"
    and "sint t0 + sint I + 1 \<le> sint t'" and "sint t' - sint t0 < 2 ^ 63"
  shows "RateLimit t c I = Some (if t - c \<le>s I then (False, c) else (True, t)) \<and>
         RateLimit_seq d I (t0 # ts @ [t']) =
           Some (True # replicate (length ts) False @ [True], t')"
proof -
  have I: "0 \<le> sint I" "sint I < 2 ^ 63"
    using assms(1) sint_bounds_64(2) [of I] by (simp_all add: word_sle_eq)
  have "sint (t0 - d) = sint t0 - sint d"
    using assms(2,3) I by (intro sint_diff_exact) linarith+
  then have first: "\<not> t0 - d \<le>s I"
    using assms(2) by (simp add: word_sle_eq)
  have mid: "\<forall>t\<in>set ts. t - t0 \<le>s I"
  proof
    fix t assume "t \<in> set ts"
    then have b: "sint t0 \<le> sint t" "sint t \<le> sint t0 + sint I"
      using assms(4) by blast+
    have "sint (t - t0) = sint t - sint t0"
      using b I by (intro sint_diff_exact) linarith+
    then show "t - t0 \<le>s I"
      using b by (simp add: word_sle_eq)
  qed
  have "sint (t' - t0) = sint t' - sint t0"
    using assms(5,6) I by (intro sint_diff_exact) linarith+
  then have last: "\<not> t' - t0 \<le>s I"
    using assms(5) by (simp add: word_sle_eq)
  have "RateLimit_seq t0 I (ts @ [t']) = Some (replicate (length ts) False @ [True], t')"
    using RateLimit_seq_rejected [OF mid, of "[t']"] last by (simp add: RateLimit_eq)
  then have "RateLimit_seq d I (t0 # ts @ [t']) =
           Some (True # replicate (length ts) False @ [True], t')"
    using first by (simp add: RateLimit_eq)
  then show ?thesis
    by (simp add: RateLimit_eq)
qed

theorem RateLimit_window_witness:
  "(0 :: int64) \<le>s 10 \<and>
   RateLimit 1005 1000 10 = Some (False, 1000) \<and>
   RateLimit_seq 0 10 [1000, 1000, 1005, 1010, 1011] = Some ([True, False, False, False, True], 1011)"
proof -
  have h: "(0 :: int64) \<le>s 10"
    "sint (0 :: int64) + sint (10 :: int64) < sint (1000 :: int64)"
    "sint (1000 :: int64) - sint (0 :: int64) < 2 ^ 63"
    "\<forall>t\<in>set [1000, 1005, 1010 :: int64].
       sint (1000 :: int64) \<le> sint t \<and> sint t \<le> sint (1000 :: int64) + sint (10 :: int64)"
    "sint (1000 :: int64) + sint (10 :: int64) + 1 \<le> sint (1011 :: int64)"
    "sint (1011 :: int64) - sint (1000 :: int64) < 2 ^ 63"
    by (simp_all add: word_sle_eq)
  show ?thesis
    using h(1) RateLimit_window [OF h, of 1005 1000] by simp
qed

text \<open>
  C4 as stated fails where the subtraction wraps around. A cell seeded at the least
  \<open>int64\<close> is as far in the past as a cell can be, and the first call, at time
  1700000000 with interval 10, returns false: \<open>1700000000 - MinInt64\<close> wraps to a
  negative number.
  Likewise, after a call at \<open>t0 = - 2^62\<close> has returned true, a call at \<open>2^62\<close>, later
  than \<open>t0 + I + 1\<close>, returns false.
\<close>

theorem RateLimit_window_counterexample:
  "(0 :: int64) \<le>s 10 \<and>
   sint MinInt64 + sint (10 :: int64) < sint (1700000000 :: int64) \<and>
   RateLimit 1700000000 MinInt64 10 = Some (False, MinInt64) \<and>
   RateLimit (- 4611686018427387904) (- 4611686018427388004) 10
     = Some (True, - 4611686018427387904) \<and>
   sint (- 4611686018427387904 :: int64) + sint (10 :: int64) + 1 \<le> sint (4611686018427387904 :: int64) \<and>
   RateLimit 4611686018427387904 (- 4611686018427387904) 10 = Some (False, - 4611686018427387904)"
  by code_simp

subsection \<open>Concurrent calls of RateLimit\<close>

lemma sched_step_cases:
  obtains
    (out) "\<not> k < length cs" and "sched_step I k (cell, cs) = (cell, cs)"
  | (reject) t where "k < length cs" and "cs ! k = (t, AtLoad)" and "t - cell \<le>s I"
      and "sched_step I k (cell, cs) = (cell, cs[k := (t, Returned False)])"
  | (pass) t where "k < length cs" and "cs ! k = (t, AtLoad)" and "\<not> t - cell \<le>s I"
      and "sched_step I k (cell, cs) = (cell, cs[k := (t, AtCAS cell)])"
  | (cas_ok) t where "k < length cs" and "cs ! k = (t, AtCAS cell)"
      and "sched_step I k (cell, cs) = (t, cs[k := (t, Returned True)])"
  | (cas_fail) t d where "k < length cs" and "cs ! k = (t, AtCAS d)" and "cell \<noteq> d"
      and "sched_step I k (cell, cs) = (cell, cs[k := (t, AtLoad)])"
  | (ret) t b where "k < length cs" and "cs ! k = (t, Returned b)"
      and "sched_step I k (cell, cs) = (cell, cs)"
proof (cases "k < length cs")
  case False
  then show ?thesis using out by (simp add: sched_step_def)
next
  case True
  obtain t pc where e: "cs ! k = (t, pc)" by (cases "cs ! k")
  show ?thesis
  proof (cases pc)
    case AtLoad
    show ?thesis
    proof (cases "t - cell \<le>s I")
      case True
      then show ?thesis
        using reject [of t] \<open>k < length cs\<close> e AtLoad
        by (simp add: sched_step_def call_step_def LoadInt64_def)
    next
      case False
      then show ?thesis
        using pass [of t] \<open>k < length cs\<close> e AtLoad
        by (simp add: sched_step_def call_step_def LoadInt64_def)
    qed
  next
    case (AtCAS d)
    show ?thesis
    proof (cases "cell = d")
      case True
      then show ?thesis
        using cas_ok [of t] \<open>k < length cs\<close> e AtCAS
        by (simp add: sched_step_def call_step_def CompareAndSwapInt64_def)
    next
      case False
      then show ?thesis
        using cas_fail [of t d] \<open>k < length cs\<close> e AtCAS
        by (simp add: sched_step_def call_step_def CompareAndSwapInt64_def)
    qed
  next
    case (Returned b)
    have "cs[k := (t, Returned b)] = cs"
      using e Returned by (metis list_update_id)
    then show ?thesis
      using ret [of t b] \<open>k < length cs\<close> e Returned
      by (simp add: sched_step_def call_step_def)
  qed
qed

lemma RateLimit_seq_snoc:
  assumes "RateLimit_seq c I us = Some (bs, c1)"
  shows "RateLimit_seq c I (us @ [t]) =
           Some (bs @ [\<not> t - c1 \<le>s I], if t - c1 \<le>s I then c1 else t)"
  using assms
proof (induction us arbitrary: c bs)
  case Nil
  then show ?case by (simp add: RateLimit_eq)
next
  case (Cons u us)
  then show ?case
    by (auto simp add: RateLimit_eq split: option.splits if_splits)
qed

lemma returned_update:
  "returned (cell', cs[k := (t, pc)]) j \<longleftrightarrow>
     (if j = k then k < length cs \<and> (\<exists>b. pc = Returned b) else returned (cell, cs) j)"
  by (cases pc) (auto simp add: returned_def)

lemma returned_cell: "returned (cell', cs) j \<longleftrightarrow> returned (cell, cs) j"
  by (simp add: returned_def)

lemma map_nth_update_other:
  assumes "k \<notin> set order"
  shows "map (\<lambda>j. fst (cs[k := x] ! j)) order = map (\<lambda>j. fst (cs ! j)) order"
    and "map (\<lambda>j. snd (cs[k := x] ! j) = v) order = map (\<lambda>j. snd (cs ! j) = v) order"
  using assms by (induction order) auto

lemma lin_inv_stay:
  assumes "lin_inv I d0 (cell, cs) order" and "k < length cs" and "\<not> returned (cell, cs) k"
    and "\<And>b. pc \<noteq> Returned b" and "\<And>d. pc = AtCAS d \<Longrightarrow> \<not> t - d \<le>s I"
  shows "lin_inv I d0 (cell, cs[k := (t, pc)]) order"
proof -
  have d: "distinct order" and so: "set order = {j. returned (cell, cs) j}"
    and sq: "RateLimit_seq d0 I (map (\<lambda>j. fst (cs ! j)) order)
               = Some (map (\<lambda>j. snd (cs ! j) = Returned True) order, cell)"
    and ac: "\<And>j d. j < length cs \<Longrightarrow> snd (cs ! j) = AtCAS d \<Longrightarrow> \<not> fst (cs ! j) - d \<le>s I"
    using assms(1) by (auto simp add: lin_inv_def)
  have nk: "k \<notin> set order" using so assms(3) by simp
  have s': "set order = {j. returned (cell, cs[k := (t, pc)]) j}"
    using so assms(3,4) by (auto simp add: returned_update [of cell cs k t pc _ cell])
  have sq': "RateLimit_seq d0 I (map (\<lambda>j. fst (cs[k := (t, pc)] ! j)) order)
               = Some (map (\<lambda>j. snd (cs[k := (t, pc)] ! j) = Returned True) order, cell)"
    using sq by (simp only: map_nth_update_other [OF nk])
  have ac': "\<And>j d. j < length cs \<Longrightarrow> snd (cs[k := (t, pc)] ! j) = AtCAS d
               \<Longrightarrow> \<not> fst (cs[k := (t, pc)] ! j) - d \<le>s I"
    using ac assms(2,5) by (auto simp add: nth_list_update split: if_splits)
  show ?thesis
    unfolding lin_inv_def using d s' sq' ac' by simp
qed

lemma lin_inv_return:
  assumes "lin_inv I d0 (cell, cs) order" and "k < length cs" and "\<not> returned (cell, cs) k"
    and "b \<longleftrightarrow> \<not> t - cell \<le>s I" and "cell' = (if t - cell \<le>s I then cell else t)"
  shows "lin_inv I d0 (cell', cs[k := (t, Returned b)]) (order @ [k])"
proof -
  have d: "distinct order" and so: "set order = {j. returned (cell, cs) j}"
    and sq: "RateLimit_seq d0 I (map (\<lambda>j. fst (cs ! j)) order)
               = Some (map (\<lambda>j. snd (cs ! j) = Returned True) order, cell)"
    and ac: "\<And>j d. j < length cs \<Longrightarrow> snd (cs ! j) = AtCAS d \<Longrightarrow> \<not> fst (cs ! j) - d \<le>s I"
    using assms(1) by (auto simp add: lin_inv_def)
  have nk: "k \<notin> set order" using so assms(3) by simp
  have d': "distinct (order @ [k])" using d nk by simp
  have s': "set (order @ [k]) = {j. returned (cell', cs[k := (t, Returned b)]) j}"
    using so assms(2) by (auto simp add: returned_update [of cell' cs k t "Returned b" _ cell])
  have "RateLimit_seq d0 I (map (\<lambda>j. fst (cs ! j)) order @ [t])
          = Some (map (\<lambda>j. snd (cs ! j) = Returned True) order @ [b], cell')"
    using RateLimit_seq_snoc [OF sq, of t] assms(4,5) by simp
  then have sq': "RateLimit_seq d0 I (map (\<lambda>j. fst (cs[k := (t, Returned b)] ! j)) (order @ [k]))
               = Some (map (\<lambda>j. snd (cs[k := (t, Returned b)] ! j) = Returned True) (order @ [k]), cell')"
    using assms(2) by (simp add: map_nth_update_other [OF nk])
  have ac': "\<And>j d. j < length cs \<Longrightarrow> snd (cs[k := (t, Returned b)] ! j) = AtCAS d
               \<Longrightarrow> \<not> fst (cs[k := (t, Returned b)] ! j) - d \<le>s I"
    using ac assms(2) by (auto simp add: nth_list_update split: if_splits)
  show ?thesis
    unfolding lin_inv_def using d' s' sq' ac' by simp
qed

lemma lin_inv_step:
  assumes "lin_inv I d0 (cell, cs) order"
  shows "lin_inv I d0 (sched_step I k (cell, cs))
           (order @ (if returned (sched_step I k (cell, cs)) k \<and> \<not> returned (cell, cs) k
                     then [k] else []))"
proof (cases rule: sched_step_cases [of k cs I cell])
  case out
  then show ?thesis using assms by (simp add: returned_def)
next
  case (reject t)
  have nr: "\<not> returned (cell, cs) k" using reject(2) by (simp add: returned_def)
  have "returned (cell, cs[k := (t, Returned False)]) k"
    using reject(1) by (simp add: returned_def)
  then show ?thesis
    using lin_inv_return [OF assms reject(1) nr, of False t cell] reject(3,4) nr by simp
next
  case (pass t)
  have nr: "\<not> returned (cell, cs) k" using pass(2) by (simp add: returned_def)
  have "\<not> returned (cell, cs[k := (t, AtCAS cell)]) k"
    using pass(1) by (simp add: returned_def)
  then show ?thesis
    using lin_inv_stay [OF assms pass(1) nr, of "AtCAS cell" t] pass(3,4) by simp
next
  case (cas_ok t)
  have nr: "\<not> returned (cell, cs) k" using cas_ok(2) by (simp add: returned_def)
  have "\<not> t - cell \<le>s I"
    using assms cas_ok(1,2) by (auto simp add: lin_inv_def)
  moreover have "returned (t, cs[k := (t, Returned True)]) k"
    using cas_ok(1) by (simp add: returned_def)
  ultimately show ?thesis
    using lin_inv_return [OF assms cas_ok(1) nr, of True t t] cas_ok(3) nr by simp
next
  case (cas_fail t d)
  have nr: "\<not> returned (cell, cs) k" using cas_fail(2) by (simp add: returned_def)
  have "\<not> returned (cell, cs[k := (t, AtLoad)]) k"
    using cas_fail(1) by (simp add: returned_def)
  then show ?thesis
    using lin_inv_stay [OF assms cas_fail(1) nr, of AtLoad t] cas_fail(4) by simp
next
  case (ret t b)
  then show ?thesis using assms by (simp add: returned_def)
qed

lemma lin_inv_exec:
  assumes "lin_inv I d0 c order"
  shows "lin_inv I d0 (exec I ks c) (order @ completions I ks c)"
  using assms
proof (induction ks arbitrary: c order)
  case Nil
  then show ?case by simp
next
  case (Cons k ks)
  obtain cell cs where c: "c = (cell, cs)" by (cases c)
  show ?case
    using Cons.IH [OF lin_inv_step [OF Cons.prems [unfolded c], of k]]
    by (simp add: c)
qed

lemma lin_inv_start: "lin_inv I d0 (start d0 ts) []"
  by (simp add: lin_inv_def start_def returned_def)

lemma sched_step_clocks: "map fst (snd (sched_step I k c)) = map fst (snd c)"
proof -
  obtain cell cs where c: "c = (cell, cs)" by (cases c)
  have u: "\<And>t pc. k < length cs \<Longrightarrow> fst (cs ! k) = t \<Longrightarrow> map fst (cs[k := (t, pc)]) = map fst cs"
    by (simp add: map_update list_update_same_conv)
  show ?thesis
    unfolding c by (cases rule: sched_step_cases [of k cs I cell]) (simp_all add: u)
qed

lemma exec_clocks: "map fst (snd (exec I ks c)) = map fst (snd c)"
  by (induction ks arbitrary: c) (simp_all add: sched_step_clocks)

lemma start_clocks: "map fst (snd (start d0 ts)) = ts"
  by (simp add: start_def comp_def)

lemma clock_nth:
  assumes "map fst (snd c) = ts" and "k < length ts"
  shows "fst (snd c ! k) = ts ! k" and "k < length (snd c)"
proof -
  show l: "k < length (snd c)" using assms by (metis length_map)
  show "fst (snd c ! k) = ts ! k" using assms l by (metis nth_map)
qed

lemma returned_less:
  assumes "map fst (snd c) = ts" and "returned c k"
  shows "k < length ts"
  using assms by (metis length_map returned_def)

text \<open>
  Every interleaving is linearizable: the calls that have returned, in the order in
  which they returned, give the same results and leave the same cell when they are run
  one after the other.
\<close>

lemma exec_linearizable:
  "distinct (completions I ks (start d0 ts)) \<and>
   set (completions I ks (start d0 ts)) = {k. returned (exec I ks (start d0 ts)) k} \<and>
   RateLimit_seq d0 I (map ((!) ts) (completions I ks (start d0 ts)))
     = Some (map (\<lambda>k. snd (snd (exec I ks (start d0 ts)) ! k) = Returned True)
               (completions I ks (start d0 ts)),
             fst (exec I ks (start d0 ts)))"
proof -
  let ?c = "exec I ks (start d0 ts)" and ?o = "completions I ks (start d0 ts)"
  have inv: "lin_inv I d0 ?c ?o"
    using lin_inv_exec [OF lin_inv_start, of I d0 ks ts] by simp
  have cl: "map fst (snd ?c) = ts"
    by (simp add: exec_clocks start_clocks)
  have so: "set ?o = {k. returned ?c k}"
    using inv by (simp add: lin_inv_def)
  have d: "distinct ?o"
    using inv by (simp add: lin_inv_def)
  have sq: "RateLimit_seq d0 I (map (\<lambda>k. fst (snd ?c ! k)) ?o)
              = Some (map (\<lambda>k. snd (snd ?c ! k) = Returned True) ?o, fst ?c)"
    using inv by (simp add: lin_inv_def)
  have m: "map (\<lambda>k. fst (snd ?c ! k)) ?o = map ((!) ts) ?o"
  proof (rule map_cong [OF refl])
    fix k assume "k \<in> set ?o"
    then have "k < length ts" using so returned_less [OF cl] by simp
    then show "fst (snd ?c ! k) = ts ! k" by (rule clock_nth(1) [OF cl])
  qed
  have "RateLimit_seq d0 I (map ((!) ts) ?o)
          = Some (map (\<lambda>k. snd (snd ?c ! k) = Returned True) ?o, fst ?c)"
    using sq by (simp only: m)
  then show ?thesis
    using d so by (intro conjI)
qed

lemma exec_append: "exec I (ks @ ks') c = exec I ks' (exec I ks c)"
  by (induction ks arbitrary: c) simp_all

lemma completions_append:
  "completions I (ks @ ks') c = completions I ks c @ completions I ks' (exec I ks c)"
  by (induction ks arbitrary: c) simp_all

lemma sched_step_returned:
  assumes "returned c j"
  shows "snd (sched_step I k c) ! j = snd c ! j"
proof -
  obtain cell cs where c: "c = (cell, cs)" by (cases c)
  have r: "j < length cs" "\<exists>b. snd (cs ! j) = Returned b"
    using assms unfolding c returned_def by (auto split: call.splits)
  show ?thesis
    unfolding c using r
    by (cases rule: sched_step_cases [of k cs I cell]) (auto simp add: nth_list_update)
qed

lemma sched_step_returned_stays:
  assumes "returned c j"
  shows "returned (sched_step I k c) j"
proof -
  have "length (snd (sched_step I k c)) = length (snd c)"
    using sched_step_clocks [of I k c] by (metis length_map)
  then show ?thesis
    using assms sched_step_returned [OF assms, of I k] by (simp add: returned_def)
qed

lemma exec_returned:
  assumes "returned c j"
  shows "snd (exec I ks c) ! j = snd c ! j"
  using assms
proof (induction ks arbitrary: c)
  case Nil
  then show ?case by simp
next
  case (Cons k ks)
  show ?case
    using Cons.IH [OF sched_step_returned_stays [OF Cons.prems, of I k]]
      sched_step_returned [OF Cons.prems, of I k]
    by simp
qed

lemma CheckRateLimit_fst: "fst (CheckRateLimit t cell I) \<longleftrightarrow> \<not> t - cell \<le>s I"
  by (simp add: CheckRateLimit_def LoadInt64_def signed.not_le)

lemma fresh_pass: "fresh I d0 ts \<Longrightarrow> t \<in> set ts \<Longrightarrow> \<not> t - d0 \<le>s I"
  by (simp add: fresh_def CheckRateLimit_fst)

lemma window_reject: "same_window I ts \<Longrightarrow> t \<in> set ts \<Longrightarrow> u \<in> set ts \<Longrightarrow> t - u \<le>s I"
  by (simp add: same_window_def CheckRateLimit_fst)

lemma seed_not_clock:
  assumes "fresh I d0 ts" and "same_window I ts"
  shows "d0 \<notin> set ts"
  using fresh_pass [OF assms(1), of d0] window_reject [OF assms(2), of d0 d0] by blast

lemma pot_mono: "cell' = cell \<or> cell' \<noteq> d0 \<Longrightarrow> pot d0 cell' pc \<le> pot d0 cell pc"
  by (cases pc) (auto simp add: pot_def)

lemma call_step_race:
  assumes "fresh I d0 ts" and "same_window I ts" and "t \<in> set ts"
    and "cell = d0 \<or> cell \<in> set ts" and "\<And>d. pc = AtCAS d \<Longrightarrow> d = d0"
    and "call_step I t pc cell = (pc', cell')"
  shows "cell' = d0 \<or> cell' \<in> set ts"
    and "\<And>d. pc' = AtCAS d \<Longrightarrow> d = d0"
    and "cell' = cell \<or> cell' \<noteq> d0"
    and "(\<And>b. pc \<noteq> Returned b) \<Longrightarrow> pot d0 cell' pc' < pot d0 cell pc"
    and "pot d0 cell' pc' \<le> pot d0 cell pc"
proof -
  note nd = seed_not_clock [OF assms(1,2)]
  have tn: "t \<noteq> d0" using nd assms(3) by blast
  have all: "(cell' = d0 \<or> cell' \<in> set ts) \<and> (\<forall>d. pc' = AtCAS d \<longrightarrow> d = d0) \<and>
             (cell' = cell \<or> cell' \<noteq> d0) \<and>
             ((\<forall>b. pc \<noteq> Returned b) \<longrightarrow> pot d0 cell' pc' < pot d0 cell pc) \<and>
             pot d0 cell' pc' \<le> pot d0 cell pc"
  proof (cases pc)
    case AtLoad
    show ?thesis
    proof (cases "t - cell \<le>s I")
      case True
      then have "pc' = Returned False" "cell' = cell"
        using assms(6) AtLoad by (auto simp add: call_step_def LoadInt64_def)
      then show ?thesis using assms(4) AtLoad by (simp add: pot_def)
    next
      case False
      then have e: "pc' = AtCAS cell" "cell' = cell"
        using assms(6) AtLoad by (auto simp add: call_step_def LoadInt64_def)
      have "cell = d0"
        using assms(4) window_reject [OF assms(2,3), of cell] False by blast
      then show ?thesis using e AtLoad by (simp add: pot_def)
    qed
  next
    case (AtCAS d)
    then have d: "d = d0" using assms(5) by simp
    show ?thesis
    proof (cases "cell = d0")
      case True
      then have "pc' = Returned True" "cell' = t"
        using assms(6) AtCAS d by (auto simp add: call_step_def CompareAndSwapInt64_def)
      then show ?thesis using assms(3) tn AtCAS by (simp add: pot_def)
    next
      case False
      then have "pc' = AtLoad" "cell' = cell"
        using assms(6) AtCAS d by (auto simp add: call_step_def CompareAndSwapInt64_def)
      then show ?thesis using assms(4) False AtCAS by (simp add: pot_def)
    qed
  next
    case (Returned b)
    then have "pc' = Returned b" "cell' = cell"
      using assms(6) by (auto simp add: call_step_def)
    then show ?thesis using assms(4) Returned by (simp add: pot_def)
  qed
  show "cell' = d0 \<or> cell' \<in> set ts" using all by blast
  show "\<And>d. pc' = AtCAS d \<Longrightarrow> d = d0" using all by blast
  show "cell' = cell \<or> cell' \<noteq> d0" using all by blast
  show "(\<And>b. pc \<noteq> Returned b) \<Longrightarrow> pot d0 cell' pc' < pot d0 cell pc" using all by blast
  show "pot d0 cell' pc' \<le> pot d0 cell pc" using all by blast
qed

lemma sched_step_shape:
  assumes "j < length cs"
  obtains t pc pc' cell' where "cs ! j = (t, pc)" and "call_step I t pc cell = (pc', cell')"
    and "sched_step I j (cell, cs) = (cell', cs[j := (t, pc')])"
proof -
  obtain t pc where e: "cs ! j = (t, pc)" by (cases "cs ! j")
  obtain pc' cell' where f: "call_step I t pc cell = (pc', cell')"
    by (cases "call_step I t pc cell")
  have "sched_step I j (cell, cs) = (cell', cs[j := (t, pc')])"
    using assms e f by (simp add: sched_step_def)
  then show ?thesis using that e f by blast
qed

lemma race_step:
  assumes "fresh I d0 ts" and "same_window I ts" and "race_inv d0 ts c"
  shows "race_inv d0 ts (sched_step I j c)"
    and "k < length ts \<Longrightarrow> potential d0 (sched_step I j c) k \<le> potential d0 c k"
    and "j < length ts \<Longrightarrow> \<not> returned c j \<Longrightarrow>
           potential d0 (sched_step I j c) j < potential d0 c j"
proof -
  obtain cell cs where c: "c = (cell, cs)" by (cases c)
  have cl: "map fst cs = ts" and ce: "cell = d0 \<or> cell \<in> set ts"
    and ac: "\<And>k d. k < length ts \<Longrightarrow> snd (cs ! k) = AtCAS d \<Longrightarrow> d = d0"
    using assms(3) unfolding c race_inv_def by auto
  have len: "length cs = length ts" using cl by (metis length_map)
  show "race_inv d0 ts (sched_step I j c)"
    and "k < length ts \<Longrightarrow> potential d0 (sched_step I j c) k \<le> potential d0 c k"
    and "j < length ts \<Longrightarrow> \<not> returned c j \<Longrightarrow>
           potential d0 (sched_step I j c) j < potential d0 c j"
  proof (atomize (full), cases "j < length cs")
    case False
    then have "sched_step I j c = c" by (simp add: sched_step_def c)
    then show "race_inv d0 ts (sched_step I j c) \<and>
      (k < length ts \<longrightarrow> potential d0 (sched_step I j c) k \<le> potential d0 c k) \<and>
      (j < length ts \<longrightarrow> \<not> returned c j \<longrightarrow> potential d0 (sched_step I j c) j < potential d0 c j)"
      using assms(3) False len by simp
  next
    case True
    obtain t pc pc' cell' where e: "cs ! j = (t, pc)" "call_step I t pc cell = (pc', cell')"
      "sched_step I j (cell, cs) = (cell', cs[j := (t, pc')])"
      using sched_step_shape [OF True, of I cell] by blast
    have "ts ! j = t" using cl True e(1) by (metis fst_conv nth_map)
    then have t: "t \<in> set ts" using True len by (metis nth_mem)
    have acj: "\<And>d. pc = AtCAS d \<Longrightarrow> d = d0"
      using ac [of j] True len e(1) by simp
    note r = call_step_race [OF assms(1,2) t ce acj e(2)]
    have cl': "map fst (cs[j := (t, pc')]) = ts"
      using sched_step_clocks [of I j c] cl unfolding c e(3) by simp
    have ac': "\<forall>k<length ts. \<forall>d. snd (cs[j := (t, pc')] ! k) = AtCAS d \<longrightarrow> d = d0"
    proof (intro allI impI)
      fix k d assume k: "k < length ts" and a: "snd (cs[j := (t, pc')] ! k) = AtCAS d"
      show "d = d0"
      proof (cases "k = j")
        case True
        then show ?thesis using a k len r(2) by simp
      next
        case False
        then show ?thesis using a k ac by simp
      qed
    qed
    have inv': "race_inv d0 ts (cell', cs[j := (t, pc')])"
      unfolding race_inv_def using cl' r(1) ac' by simp
    have others: "k < length ts \<longrightarrow> potential d0 (cell', cs[j := (t, pc')]) k \<le> potential d0 (cell, cs) k"
    proof
      assume k: "k < length ts"
      show "potential d0 (cell', cs[j := (t, pc')]) k \<le> potential d0 (cell, cs) k"
      proof (cases "k = j")
        case True
        then show ?thesis using r(5) e(1) k len by (simp add: potential_def)
      next
        case False
        then show ?thesis using pot_mono [OF r(3)] by (simp add: potential_def)
      qed
    qed
    have own: "j < length ts \<longrightarrow> \<not> returned (cell, cs) j \<longrightarrow>
            potential d0 (cell', cs[j := (t, pc')]) j < potential d0 (cell, cs) j"
    proof (intro impI)
      assume "j < length ts" and nr: "\<not> returned (cell, cs) j"
      have "\<And>b. pc \<noteq> Returned b"
        using nr True e(1) by (auto simp add: returned_def)
      then show "potential d0 (cell', cs[j := (t, pc')]) j < potential d0 (cell, cs) j"
        using r(4) e(1) True by (simp add: potential_def)
    qed
    show "race_inv d0 ts (sched_step I j c) \<and>
      (k < length ts \<longrightarrow> potential d0 (sched_step I j c) k \<le> potential d0 c k) \<and>
      (j < length ts \<longrightarrow> \<not> returned c j \<longrightarrow> potential d0 (sched_step I j c) j < potential d0 c j)"
      unfolding c e(3) using inv' others own by blast
  qed
qed

lemma potential_zero:
  assumes "potential d0 c k = 0" and "k < length (snd c)"
  shows "returned c k"
  using assms by (cases "snd (snd c ! k)") (auto simp add: potential_def pot_def returned_def split: if_splits)

lemma returned_potential:
  assumes "returned c k"
  shows "potential d0 c k = 0"
  using assms by (cases "snd (snd c ! k)") (auto simp add: potential_def pot_def returned_def)

lemma race_returns:
  assumes "fresh I d0 ts" and "same_window I ts" and "race_inv d0 ts c"
    and "\<forall>k<length ts. potential d0 c k \<le> count_list ks k"
  shows "\<forall>k<length ts. returned (exec I ks c) k"
  using assms(3,4)
proof (induction ks arbitrary: c)
  case Nil
  have len: "length (snd c) = length ts"
    using Nil.prems(1) unfolding race_inv_def by (metis length_map)
  show ?case
  proof (intro allI impI)
    fix k assume k: "k < length ts"
    then have "potential d0 c k = 0" using Nil.prems(2) by simp
    then show "returned (exec I [] c) k"
      using potential_zero [of d0 c k] k len by simp
  qed
next
  case (Cons j ks)
  note st = race_step [OF assms(1,2) Cons.prems(1), where j=j]
  have "\<forall>k<length ts. potential d0 (sched_step I j c) k \<le> count_list ks k"
  proof (intro allI impI)
    fix k assume k: "k < length ts"
    have le: "potential d0 (sched_step I j c) k \<le> potential d0 c k"
      using st(2) [OF k] .
    have b: "potential d0 c k \<le> count_list (j # ks) k"
      using Cons.prems(2) k by blast
    show "potential d0 (sched_step I j c) k \<le> count_list ks k"
    proof (cases "k = j")
      case False
      then show ?thesis using le b by simp
    next
      case True
      show ?thesis
      proof (cases "returned c j")
        case r: True
        then show ?thesis using le returned_potential [OF r, of d0] True by simp
      next
        case False
        then have "potential d0 (sched_step I j c) j < potential d0 c j"
          using st(3) k True by simp
        then show ?thesis using b True by simp
      qed
    qed
  qed
  then show ?case
    using Cons.IH [OF st(1)] by simp
qed

lemma race_inv_start: "race_inv d0 ts (start d0 ts)"
  by (simp add: race_inv_def start_def comp_def)

lemma potential_start: "k < length ts \<Longrightarrow> potential d0 (start d0 ts) k = 3"
  by (simp add: potential_def pot_def start_def)

lemma RateLimit_seq_race:
  assumes "fresh I d0 ts" and "same_window I ts" and "t \<in> set ts" and "set us \<subseteq> set ts"
  shows "RateLimit_seq d0 I (t # us) = Some (True # replicate (length us) False, t)"
proof -
  have "\<forall>u\<in>set us. u - t \<le>s I"
    using window_reject [OF assms(2) _ assms(3)] assms(4) by blast
  then have "RateLimit_seq t I us = Some (replicate (length us) False, t)"
    using RateLimit_seq_rejected [of us t I "[]"] by simp
  then show ?thesis
    using fresh_pass [OF assms(1,3)] by (simp add: RateLimit_eq)
qed

lemma map_eq_replicate_False:
  assumes "map f xs = replicate (length xs) False" and "x \<in> set xs"
  shows "\<not> f x"
proof -
  have "f x \<in> set (map f xs)" using assms(2) by simp
  then show ?thesis unfolding assms(1) by simp
qed

lemma returned_result:
  assumes "returned c j"
  shows "\<exists>b. snd (snd c ! j) = Returned b"
  using assms by (cases "snd (snd c ! j)") (simp_all add: returned_def)

text \<open>
  C8. \<open>N \<ge> 1\<close> goroutines call \<open>RateLimit\<close> on one fresh cell, their readings of the
  clock within one disallowed window. In every interleaving of their atomic operations
  in which each call takes at least three steps, every call has returned: exactly one
  call, \<open>k\<close>, returned true, all others returned false, and the cell holds the reading
  of \<open>k\<close>. The calls in the order in which they returned are a total order of all
  calls, and the run is consistent with it at every moment: after any \<open>n\<close> steps of
  the schedule, the calls that have returned are an initial segment of this order, each
  has the result it has at the end, and these calls run one after the other in this
  order give exactly these results and leave exactly the value that the cell holds.
\<close>

theorem RateLimit_race:
  assumes "ts \<noteq> []" and "fresh I d0 ts" and "same_window I ts"
    and "\<forall>k<length ts. 3 \<le> count_list sched k"
  shows "\<exists>k<length ts.
           exec I sched (start d0 ts)
             = (ts ! k, (map (\<lambda>t. (t, Returned False)) ts)[k := (ts ! k, Returned True)]) \<and>
           distinct (completions I sched (start d0 ts)) \<and>
           set (completions I sched (start d0 ts)) = {..<length ts} \<and>
           (\<forall>n. completions I (take n sched) (start d0 ts)
                  = take (length (completions I (take n sched) (start d0 ts)))
                      (completions I sched (start d0 ts)) \<and>
                set (completions I (take n sched) (start d0 ts))
                  = {j. returned (exec I (take n sched) (start d0 ts)) j} \<and>
                map (\<lambda>j. snd (snd (exec I (take n sched) (start d0 ts)) ! j))
                    (completions I (take n sched) (start d0 ts))
                  = map (\<lambda>j. Returned (j = k)) (completions I (take n sched) (start d0 ts)) \<and>
                RateLimit_seq d0 I (map ((!) ts) (completions I (take n sched) (start d0 ts)))
                  = Some (map (\<lambda>j. j = k) (completions I (take n sched) (start d0 ts)),
                          fst (exec I (take n sched) (start d0 ts))))"
proof -
  define c where "c = exec I sched (start d0 ts)"
  define ord where "ord = completions I sched (start d0 ts)"
  have cl: "map fst (snd c) = ts"
    by (simp add: c_def exec_clocks start_clocks)
  have len: "length (snd c) = length ts"
    using cl by (metis length_map)
  have ret: "\<forall>k<length ts. returned c k"
    using race_returns [OF assms(2,3) race_inv_start, of sched] assms(4)
    by (simp add: c_def potential_start)
  note lin = exec_linearizable [of I sched d0 ts, folded c_def ord_def]
  have d: "distinct ord" using lin by (rule conjunct1)
  have sr: "set ord = {k. returned c k}"
    using lin by (rule conjunct1 [OF conjunct2])
  have so: "set ord = {..<length ts}"
  proof (intro set_eqI iffI)
    fix j assume "j \<in> set ord"
    then have "returned c j" using sr by simp
    then show "j \<in> {..<length ts}" using returned_less [OF cl] by simp
  next
    fix j assume "j \<in> {..<length ts}"
    then have "returned c j" using ret by simp
    then show "j \<in> set ord" using sr by simp
  qed
  have sq: "RateLimit_seq d0 I (map ((!) ts) ord)
              = Some (map (\<lambda>k. snd (snd c ! k) = Returned True) ord, fst c)"
    using lin by (rule conjunct2 [OF conjunct2])
  have "0 < length ts" using assms(1) by simp
  then have "0 \<in> set ord" unfolding so by simp
  then obtain k rest where o: "ord = k # rest" by (cases ord) simp_all
  have "k \<in> set ord" unfolding o by simp
  then have k: "k < length ts" unfolding so by simp
  have "set rest \<subseteq> set ord" unfolding o by (simp add: subset_insertI)
  then have rest: "\<And>j. j \<in> set rest \<Longrightarrow> j < length ts"
    unfolding so by blast
  have nk: "k \<notin> set rest" using d unfolding o by simp
  have "set (map ((!) ts) rest) \<subseteq> set ts"
    using rest by (auto simp add: nth_mem)
  then have "RateLimit_seq d0 I (ts ! k # map ((!) ts) rest)
               = Some (True # replicate (length (map ((!) ts) rest)) False, ts ! k)"
    using RateLimit_seq_race [OF assms(2,3), of "ts ! k" "map ((!) ts) rest"] k by simp
  then have "Some (map (\<lambda>k. snd (snd c ! k) = Returned True) (k # rest), fst c)
               = Some (True # replicate (length rest) False, ts ! k)"
    using sq unfolding o by (simp only: list.map length_map)
  then have e: "fst c = ts ! k" "snd (snd c ! k) = Returned True"
    "map (\<lambda>j. snd (snd c ! j) = Returned True) rest = replicate (length rest) False"
    by simp_all
  have res: "\<And>j. j < length ts \<Longrightarrow> snd c ! j = (ts ! j, Returned (j = k))"
  proof -
    fix j assume j: "j < length ts"
    have f: "fst (snd c ! j) = ts ! j" using clock_nth(1) [OF cl j] .
    show "snd c ! j = (ts ! j, Returned (j = k))"
    proof (cases "j = k")
      case True
      then show ?thesis using f e(2) by (simp add: prod_eq_iff)
    next
      case False
      have "j \<in> set ord" unfolding so using j by simp
      then have "j \<in> set rest" using False unfolding o by simp
      then have n: "snd (snd c ! j) \<noteq> Returned True"
        using map_eq_replicate_False [OF e(3)] by blast
      have "returned c j" using ret j by simp
      then obtain b where "snd (snd c ! j) = Returned b"
        using returned_result by blast
      then have "snd (snd c ! j) = Returned False" using n by (cases b) simp_all
      then show ?thesis using f False by (simp add: prod_eq_iff)
    qed
  qed
  have "snd c = (map (\<lambda>t. (t, Returned False)) ts)[k := (ts ! k, Returned True)]"
  proof (rule nth_equalityI)
    show "length (snd c) = length ((map (\<lambda>t. (t, Returned False)) ts)[k := (ts ! k, Returned True)])"
      using len by simp
  next
    fix j assume "j < length (snd c)"
    then have j: "j < length ts" using len by simp
    show "snd c ! j = (map (\<lambda>t. (t, Returned False)) ts)[k := (ts ! k, Returned True)] ! j"
      using res [OF j] j k by (cases "j = k") (simp_all add: nth_list_update)
  qed
  then have final: "c = (ts ! k, (map (\<lambda>t. (t, Returned False)) ts)[k := (ts ! k, Returned True)])"
    using e(1) by (simp add: prod_eq_iff)
  have hist: "\<forall>n. completions I (take n sched) (start d0 ts)
                  = take (length (completions I (take n sched) (start d0 ts))) ord \<and>
                set (completions I (take n sched) (start d0 ts))
                  = {j. returned (exec I (take n sched) (start d0 ts)) j} \<and>
                map (\<lambda>j. snd (snd (exec I (take n sched) (start d0 ts)) ! j))
                    (completions I (take n sched) (start d0 ts))
                  = map (\<lambda>j. Returned (j = k)) (completions I (take n sched) (start d0 ts)) \<and>
                RateLimit_seq d0 I (map ((!) ts) (completions I (take n sched) (start d0 ts)))
                  = Some (map (\<lambda>j. j = k) (completions I (take n sched) (start d0 ts)),
                          fst (exec I (take n sched) (start d0 ts)))"
  proof
    fix n
    let ?p = "take n sched" and ?q = "drop n sched"
    let ?cp = "exec I ?p (start d0 ts)" and ?op = "completions I ?p (start d0 ts)"
    have c: "c = exec I ?q ?cp"
      using exec_append [of I ?p ?q "start d0 ts"] by (simp add: c_def)
    have "ord = ?op @ completions I ?q ?cp"
      using completions_append [of I ?p ?q "start d0 ts"] by (simp add: ord_def)
    then have t: "?op = take (length ?op) ord" by simp
    note linp = exec_linearizable [of I ?p d0 ts]
    have sp: "set ?op = {j. returned ?cp j}"
      using linp by (rule conjunct1 [OF conjunct2])
    have at: "\<And>j. j \<in> set ?op \<Longrightarrow> snd ?cp ! j = (ts ! j, Returned (j = k))"
    proof -
      fix j assume "j \<in> set ?op"
      then have r: "returned ?cp j" using sp by simp
      have clp: "map fst (snd ?cp) = ts" by (simp add: exec_clocks start_clocks)
      have j: "j < length ts" using returned_less [OF clp r] .
      have "snd c ! j = snd ?cp ! j"
        unfolding c by (rule exec_returned [OF r])
      then show "snd ?cp ! j = (ts ! j, Returned (j = k))"
        using res [OF j] by simp
    qed
    have m1: "map (\<lambda>j. snd (snd ?cp ! j)) ?op = map (\<lambda>j. Returned (j = k)) ?op"
    proof (rule map_cong [OF refl])
      fix j assume "j \<in> set ?op"
      then show "snd (snd ?cp ! j) = Returned (j = k)" using at by simp
    qed
    have m2: "map (\<lambda>j. snd (snd ?cp ! j) = Returned True) ?op = map (\<lambda>j. j = k) ?op"
    proof (rule map_cong [OF refl])
      fix j assume "j \<in> set ?op"
      then show "(snd (snd ?cp ! j) = Returned True) = (j = k)" using at by simp
    qed
    have sq: "RateLimit_seq d0 I (map ((!) ts) ?op) = Some (map (\<lambda>j. j = k) ?op, fst ?cp)"
      using conjunct2 [OF conjunct2 [OF linp]] by (simp only: m2)
    show "?op = take (length ?op) ord \<and> set ?op = {j. returned ?cp j} \<and>
          map (\<lambda>j. snd (snd ?cp ! j)) ?op = map (\<lambda>j. Returned (j = k)) ?op \<and>
          RateLimit_seq d0 I (map ((!) ts) ?op) = Some (map (\<lambda>j. j = k) ?op, fst ?cp)"
      using t sp m1 sq by (intro conjI)
  qed
  show ?thesis
    using k final d so hist unfolding c_def ord_def by (intro exI [of _ k] conjI)
qed

theorem RateLimit_race_witness:
  "exec 10 [0, 1, 2, 1, 0, 2, 0, 1, 2] (start 0 [100, 101, 102])
     = (101, [(100, Returned False), (101, Returned True), (102, Returned False)]) \<and>
   completions 10 [0, 1, 2, 1, 0, 2, 0, 1, 2] (start 0 [100, 101, 102]) = [1, 0, 2] \<and>
   exec 10 (take 4 [0, 1, 2, 1, 0, 2, 0, 1, 2]) (start 0 [100, 101, 102])
     = (101, [(100, AtCAS 0), (101, Returned True), (102, AtCAS 0)]) \<and>
   completions 10 (take 4 [0, 1, 2, 1, 0, 2, 0, 1, 2]) (start 0 [100, 101, 102]) = [1] \<and>
   RateLimit_seq 0 10 (map ((!) [100, 101, 102]) [1]) = Some ([True], 101) \<and>
   RateLimit_seq 0 10 (map ((!) [100, 101, 102]) [1, 0, 2]) = Some ([True, False, False], 101) \<and>
   (\<exists>k<length ([100, 101, 102] :: int64 list).
      exec 10 [0, 1, 2, 1, 0, 2, 0, 1, 2] (start 0 [100, 101, 102])
        = ([100, 101, 102] ! k, (map (\<lambda>t. (t, Returned False)) [100, 101, 102])[k := ([100, 101, 102] ! k, Returned True)]) \<and>
      distinct (completions 10 [0, 1, 2, 1, 0, 2, 0, 1, 2] (start 0 [100, 101, 102])) \<and>
      set (completions 10 [0, 1, 2, 1, 0, 2, 0, 1, 2] (start 0 [100, 101, 102])) = {..<length ([100, 101, 102] :: int64 list)} \<and>
      (\<forall>n. completions 10 (take n [0, 1, 2, 1, 0, 2, 0, 1, 2]) (start 0 [100, 101, 102])
             = take (length (completions 10 (take n [0, 1, 2, 1, 0, 2, 0, 1, 2]) (start 0 [100, 101, 102])))
                 (completions 10 [0, 1, 2, 1, 0, 2, 0, 1, 2] (start 0 [100, 101, 102])) \<and>
           set (completions 10 (take n [0, 1, 2, 1, 0, 2, 0, 1, 2]) (start 0 [100, 101, 102]))
             = {j. returned (exec 10 (take n [0, 1, 2, 1, 0, 2, 0, 1, 2]) (start 0 [100, 101, 102])) j} \<and>
           map (\<lambda>j. snd (snd (exec 10 (take n [0, 1, 2, 1, 0, 2, 0, 1, 2]) (start 0 [100, 101, 102])) ! j))
               (completions 10 (take n [0, 1, 2, 1, 0, 2, 0, 1, 2]) (start 0 [100, 101, 102]))
             = map (\<lambda>j. Returned (j = k)) (completions 10 (take n [0, 1, 2, 1, 0, 2, 0, 1, 2]) (start 0 [100, 101, 102])) \<and>
           RateLimit_seq 0 10 (map ((!) [100, 101, 102]) (completions 10 (take n [0, 1, 2, 1, 0, 2, 0, 1, 2]) (start 0 [100, 101, 102])))
             = Some (map (\<lambda>j. j = k) (completions 10 (take n [0, 1, 2, 1, 0, 2, 0, 1, 2]) (start 0 [100, 101, 102])),
                     fst (exec 10 (take n [0, 1, 2, 1, 0, 2, 0, 1, 2]) (start 0 [100, 101, 102])))))"
proof -
  have h: "([100, 101, 102] :: int64 list) \<noteq> []" "fresh 10 0 [100, 101, 102]"
    "same_window 10 [100, 101, 102]"
    "\<forall>k<length ([100, 101, 102] :: int64 list). 3 \<le> count_list [0, 1, 2, 1, 0, 2, 0, 1, 2] k"
    by (simp_all add: fresh_def same_window_def CheckRateLimit_fst word_sle_eq
        numeral_3_eq_3 All_less_Suc)
  have e1: "exec 10 [0, 1, 2, 1, 0, 2, 0, 1, 2] (start 0 [100, 101, 102])
     = (101, [(100, Returned False), (101, Returned True), (102, Returned False)])"
    by code_simp
  have e2: "completions 10 [0, 1, 2, 1, 0, 2, 0, 1, 2] (start 0 [100, 101, 102]) = [1, 0, 2]"
    by code_simp
  have e3: "exec 10 (take 4 [0, 1, 2, 1, 0, 2, 0, 1, 2]) (start 0 [100, 101, 102])
     = (101, [(100, AtCAS 0), (101, Returned True), (102, AtCAS 0)])"
    by code_simp
  have e4: "completions 10 (take 4 [0, 1, 2, 1, 0, 2, 0, 1, 2]) (start 0 [100, 101, 102]) = [1]"
    by code_simp
  have e5: "RateLimit_seq 0 10 (map ((!) [100, 101, 102]) [1]) = Some ([True], 101)"
    by code_simp
  have e6: "RateLimit_seq 0 10 (map ((!) [100, 101, 102]) [1, 0, 2]) = Some ([True, False, False], 101)"
    by code_simp
  show ?thesis
    using e1 e2 e3 e4 e5 e6 RateLimit_race [OF h] by (intro conjI)
qed

end
